theory Spec2Isabelle
  imports Main "HOL-Library.Multiset"
begin

section \<open>Scope of the model\<close>

text \<open>
  The development embeds the scanning core of the repository: the annotation
  matcher (the regular expression \<open>pattern\<close> of \<open>internal/todo/scan.go\<close>), the
  ignore-rule engine (\<open>findRepoRoot\<close>, \<open>loadGitIgnore\<close>, \<open>match\<close>, \<open>matchPattern\<close>), the
  per-file scanner \<open>scanFileWithReader\<close> and the walk of \<open>ScanDirWithReader\<close>.

  Go strings are byte sequences; they are modelled as \<open>string\<close> (lists of 8-bit \<open>char\<close>).
  The standard-library functions the code calls (\<open>path.Match\<close>, \<open>path.Base\<close>,
  \<open>strings.TrimSpace\<close>, \<open>filepath.WalkDir\<close>, the regular-expression search) are
  transcribed next to the repository's own functions, since the claims depend on what
  they compute.  Go's \<open>error\<close> values are one datatype; a \<open>nil\<close> error is \<open>None\<close>.
\<close>

datatype error =
    ErrBadPattern
  | SkipDir
  | SkipAll
  | ErrNotExist
  | ErrPermission
  | ErrIO

section \<open>UTF-8 decoding (package \<open>unicode/utf8\<close>)\<close>

text \<open>Runes are Go's \<open>int32\<close> code points; \<open>RuneError\<close> is U+FFFD.\<close>

definition RuneError :: int where
  "RuneError = 0xFFFD"

text \<open>
  \<open>utf8.DecodeRuneInString\<close>: the rune at the start of the string and its width in
  bytes; \<open>(RuneError, 0)\<close> on the empty string and \<open>(RuneError, 1)\<close> on an invalid or
  truncated encoding.  The accepted range of the second byte depends on the first one
  (no overlong forms, no surrogates, nothing above U+10FFFF).
\<close>

definition DecodeRuneInString :: "string \<Rightarrow> int \<times> nat" where
  "DecodeRuneInString s =
    (if s = [] then (RuneError, 0) else
     let s0 = (of_char (s ! 0) :: int) in
     if s0 < 0x80 then (s0, 1)
     else if s0 < 0xC2 \<or> 0xF4 < s0 then (RuneError, 1)
     else
       let sz = (if s0 < 0xE0 then 2 else if s0 < 0xF0 then 3 else 4 :: nat);
           lo = (if s0 = 0xE0 then 0xA0 else if s0 = 0xF0 then 0x90 else 0x80 :: int);
           hi = (if s0 = 0xED then 0x9F else if s0 = 0xF4 then 0x8F else 0xBF :: int)
       in
       if length s < sz then (RuneError, 1)
       else
         let s1 = (of_char (s ! 1) :: int) in
         if s1 < lo \<or> hi < s1 then (RuneError, 1)
         else if sz \<le> 2 then ((s0 mod 32) * 64 + s1 mod 64, 2)
         else
           let s2 = (of_char (s ! 2) :: int) in
           if s2 < 0x80 \<or> 0xBF < s2 then (RuneError, 1)
           else if sz \<le> 3 then ((s0 mod 16) * 4096 + (s1 mod 64) * 64 + s2 mod 64, 3)
           else
             let s3 = (of_char (s ! 3) :: int) in
             if s3 < 0x80 \<or> 0xBF < s3 then (RuneError, 1)
             else ((s0 mod 8) * 262144 + (s1 mod 64) * 4096 + (s2 mod 64) * 64 + s3 mod 64, 4))"

lemma DecodeRuneInString_size:
  "s \<noteq> [] \<Longrightarrow> 0 < snd (DecodeRuneInString s)"
  by (simp add: DecodeRuneInString_def Let_def)

section \<open>Glob matching (package \<open>path\<close>)\<close>

subsection \<open>\<open>getEsc\<close>: one possibly escaped character of a character class\<close>

definition getEsc :: "string \<Rightarrow> error + (int \<times> string)" where
  "getEsc chunk =
    (if chunk = [] \<or> hd chunk = CHR ''-'' \<or> hd chunk = CHR '']'' then Inl ErrBadPattern
     else
       let chunk1 = (if hd chunk = CHR 0x5C then tl chunk else chunk) in
       if chunk1 = [] then Inl ErrBadPattern
       else
         let (r, n) = DecodeRuneInString chunk1;
             nchunk = drop n chunk1
         in if (r = RuneError \<and> n = 1) \<or> nchunk = [] then Inl ErrBadPattern
            else Inr (r, nchunk))"

lemma getEsc_shorter:
  "getEsc chunk = Inr (r, nchunk) \<Longrightarrow> length nchunk < length chunk"
proof -
  assume a: "getEsc chunk = Inr (r, nchunk)"
  define chunk1 where "chunk1 = (if hd chunk = CHR 0x5C then tl chunk else chunk)"
  from a have ne: "chunk \<noteq> []" "chunk1 \<noteq> []"
    by (auto simp: getEsc_def chunk1_def Let_def split: if_splits)
  from a have "nchunk = drop (snd (DecodeRuneInString chunk1)) chunk1"
    by (auto simp: getEsc_def chunk1_def Let_def split: if_splits prod.splits)
  moreover have "0 < snd (DecodeRuneInString chunk1)"
    using ne by (simp add: DecodeRuneInString_size)
  moreover have "length chunk1 \<le> length chunk"
    by (simp add: chunk1_def)
  ultimately show ?thesis using ne by (cases chunk1) auto
qed

subsection \<open>The range loop of a character class\<close>

text \<open>
  The \<open>for\<close> loop of \<open>matchChunk\<close> that parses the ranges of a class after \<open>[\<close> (and
  \<open>^\<close>): \<open>r\<close> is the rune read from the name, \<open>match\<close> and \<open>nrange\<close> are the loop's
  variables.  It returns \<open>match\<close> and the chunk after the closing \<open>]\<close>.
\<close>

function parseRanges :: "int \<Rightarrow> bool \<Rightarrow> nat \<Rightarrow> string \<Rightarrow> error + (bool \<times> string)" where
  "parseRanges r match nrange chunk =
    (if chunk \<noteq> [] \<and> hd chunk = CHR '']'' \<and> 0 < nrange then Inr (match, tl chunk)
     else
       case getEsc chunk of
         Inl e \<Rightarrow> Inl e
       | Inr (lo, chunk1) \<Rightarrow>
           if hd chunk1 = CHR ''-'' then
             (case getEsc (tl chunk1) of
                Inl e \<Rightarrow> Inl e
              | Inr (hi, chunk2) \<Rightarrow>
                  parseRanges r (if lo \<le> r \<and> r \<le> hi then True else match) (nrange + 1) chunk2)
           else parseRanges r (if lo \<le> r \<and> r \<le> lo then True else match) (nrange + 1) chunk1)"
  by pat_completeness auto
termination
proof (relation "measure (\<lambda>(r, m, n, chunk). length chunk)", goal_cases)
  case 1
  show ?case by simp
next
  case (2 r match nrange chunk x2 lo chunk1 x2a hi chunk2)
  then have "length chunk1 < length chunk" "length chunk2 < length (tl chunk1)"
    by (auto dest: getEsc_shorter)
  then show ?case by simp
next
  case (3 r match nrange chunk x2 lo chunk1)
  then show ?case by (auto dest: getEsc_shorter)
qed

lemma parseRanges_shorter:
  "parseRanges r m n chunk = Inr (m', chunk') \<Longrightarrow> length chunk' < length chunk"
proof (induction r m n chunk rule: parseRanges.induct)
  case (1 r match nrange chunk)
  show ?case
  proof (cases "chunk \<noteq> [] \<and> hd chunk = CHR '']'' \<and> 0 < nrange")
    case True
    with "1.prems" show ?thesis by (cases chunk) auto
  next
    case False
    then obtain lo chunk1 where g1: "getEsc chunk = Inr (lo, chunk1)"
      using "1.prems" by (auto split: sum.splits)
    have l1: "length chunk1 < length chunk" using g1 by (rule getEsc_shorter)
    show ?thesis
    proof (cases "hd chunk1 = CHR ''-''")
      case True
      then obtain hi chunk2 where g2: "getEsc (tl chunk1) = Inr (hi, chunk2)"
        using "1.prems" False g1 by (auto split: sum.splits)
      have l2: "length chunk2 < length (tl chunk1)" using g2 by (rule getEsc_shorter)
      have "parseRanges r (if lo \<le> r \<and> r \<le> hi then True else match) (nrange + 1) chunk2
            = Inr (m', chunk')"
        using "1.prems" False g1 g2 True by simp
      from "1.IH"(1)[OF False g1 refl True g2 refl this] l1 l2 show ?thesis by simp
    next
      case F2: False
      have "parseRanges r (if lo \<le> r \<and> r \<le> lo then True else match) (nrange + 1) chunk1
            = Inr (m', chunk')"
        using "1.prems" False g1 F2 by simp
      from "1.IH"(2)[OF False g1 refl F2 this] l1 show ?thesis by simp
    qed
  qed
qed

declare parseRanges.simps [simp del]

subsection \<open>\<open>matchChunk\<close>\<close>

text \<open>
  The \<open>case '['\<close> branch of \<open>matchChunk\<close>, for a chunk that starts with \<open>[\<close>: it reads
  one rune of the name unless the match has failed already (then \<open>r\<close> stays 0), skips
  \<open>[\<close> and an optional \<open>^\<close>, parses the ranges, and returns the new \<open>failed\<close>, the
  rest of the chunk and the rest of the name.
\<close>

definition matchClass :: "bool \<Rightarrow> string \<Rightarrow> string \<Rightarrow> error + (bool \<times> string \<times> string)" where
  "matchClass failed chunk s =
    (let (r, s) = (if \<not> failed
                   then (fst (DecodeRuneInString s), drop (snd (DecodeRuneInString s)) s)
                   else (0, s));
         chunk = tl chunk;
         negated = (chunk \<noteq> [] \<and> hd chunk = CHR ''^'');
         chunk = (if negated then tl chunk else chunk)
     in case parseRanges r False 0 chunk of
          Inl e \<Rightarrow> Inl e
        | Inr (match, chunk) \<Rightarrow> Inr (if match = negated then True else failed, chunk, s))"

lemma matchClass_shorter:
  "matchClass failed chunk s = Inr (failed', chunk', s') \<Longrightarrow> length chunk' < length chunk"
  by (auto simp: matchClass_def Let_def split: if_splits sum.splits prod.splits
           dest!: parseRanges_shorter)

text \<open>
  The loop of \<open>matchChunk\<close>, with its variable \<open>failed\<close> as an argument.  After the
  match has failed the loop goes on through the chunk to check that it is well formed,
  without reading the name.  The result is the error, or \<open>None\<close> (\<open>ok = false\<close>), or the
  rest of the name (\<open>ok = true\<close>).
\<close>

function matchChunk_loop :: "bool \<Rightarrow> string \<Rightarrow> string \<Rightarrow> error + (string option)" where
  "matchChunk_loop failed chunk s =
    (if chunk = [] then (if failed then Inr None else Inr (Some s))
     else
       let failed = (if \<not> failed \<and> s = [] then True else failed) in
       if hd chunk = CHR ''['' then
         (case matchClass failed chunk s of
            Inl e \<Rightarrow> Inl e
          | Inr (failed, chunk, s) \<Rightarrow> matchChunk_loop failed chunk s)
       else if hd chunk = CHR ''?'' then
         (if \<not> failed
          then matchChunk_loop (if hd s = CHR ''/'' then True else failed) (tl chunk)
                 (drop (snd (DecodeRuneInString s)) s)
          else matchChunk_loop failed (tl chunk) s)
       else
         let chunk = (if hd chunk = CHR 0x5C then tl chunk else chunk) in
         if chunk = [] then Inl ErrBadPattern
         else if \<not> failed
           then matchChunk_loop (if hd chunk \<noteq> hd s then True else failed) (tl chunk) (tl s)
           else matchChunk_loop failed (tl chunk) s)"
  by pat_completeness auto
termination
  apply (relation "measure (\<lambda>(failed, chunk, s). length chunk)")
      apply (auto dest!: matchClass_shorter split: if_splits)
  done

declare matchChunk_loop.simps [simp del]

definition matchChunk :: "string \<Rightarrow> string \<Rightarrow> error + (string option)" where
  "matchChunk chunk s = matchChunk_loop False chunk s"

subsection \<open>\<open>scanChunk\<close>\<close>

text \<open>
  The \<open>Scan\<close> loop: the chunk runs to the first \<open>*\<close> outside a character class; a
  backslash protects the next character.
\<close>

fun scanChunk_loop :: "bool \<Rightarrow> string \<Rightarrow> string \<times> string" where
  "scanChunk_loop inrange [] = ([], [])"
| "scanChunk_loop inrange (c # cs) =
    (if c = CHR 0x5C then
       (case cs of
          [] \<Rightarrow> ([c], [])
        | d # ds \<Rightarrow> (let (a, b) = scanChunk_loop inrange ds in (c # d # a, b)))
     else if c = CHR ''['' then (let (a, b) = scanChunk_loop True cs in (c # a, b))
     else if c = CHR '']'' then (let (a, b) = scanChunk_loop False cs in (c # a, b))
     else if c = CHR ''*'' \<and> \<not> inrange then ([], c # cs)
     else (let (a, b) = scanChunk_loop inrange cs in (c # a, b)))"

definition scanChunk :: "string \<Rightarrow> bool \<times> string \<times> string" where
  "scanChunk pattern =
    (let star = (pattern \<noteq> [] \<and> hd pattern = CHR ''*'');
         pattern = dropWhile (\<lambda>c. c = CHR ''*'') pattern;
         (chunk, rest) = scanChunk_loop False pattern
     in (star, chunk, rest))"

lemma scanChunk_loop_append: "scanChunk_loop b p = (c, r) \<Longrightarrow> c @ r = p"
  by (induction b p arbitrary: c r rule: scanChunk_loop.induct)
     (auto split: if_splits list.splits prod.splits)

lemma scanChunk_loop_nonempty:
  "scanChunk_loop False p = (c, r) \<Longrightarrow> p \<noteq> [] \<Longrightarrow> hd p \<noteq> CHR ''*'' \<Longrightarrow> c \<noteq> []"
  by (cases p) (auto split: if_splits list.splits prod.splits)

lemma scanChunk_shorter:
  assumes "scanChunk pattern = (star, chunk, rest)" "pattern \<noteq> []"
  shows "length rest < length pattern"
proof -
  define p where "p = dropWhile (\<lambda>c. c = CHR ''*'') pattern"
  from assms have sc: "scanChunk_loop False p = (chunk, rest)"
    by (auto simp: scanChunk_def p_def Let_def split: prod.splits)
  then have app: "chunk @ rest = p" by (rule scanChunk_loop_append)
  have le: "length p \<le> length pattern" unfolding p_def by (rule length_dropWhile_le)
  show ?thesis
  proof (cases "hd pattern = CHR ''*''")
    case True
    with assms(2) have "length p < length pattern"
      unfolding p_def by (cases pattern) (auto simp: le_imp_less_Suc length_dropWhile_le)
    moreover from app have "length rest \<le> length p" by auto
    ultimately show ?thesis by simp
  next
    case False
    with assms(2) have "p = pattern" unfolding p_def by (cases pattern) auto
    with sc assms(2) False have "chunk \<noteq> []" by (auto dest: scanChunk_loop_nonempty)
    with app \<open>p = pattern\<close> show ?thesis by (cases chunk) auto
  qed
qed

subsection \<open>\<open>path.Match\<close>\<close>

text \<open>
  The inner loop of \<open>Match\<close> for a chunk after a star: it tries the chunk after skipping
  \<open>i + 1\<close> bytes of the name, never skipping a \<open>/\<close>.  \<open>lastChunk\<close> is
  \<open>len(pattern) == 0\<close>: the last chunk must use up the name.
\<close>

datatype star_result = Found string | Failed error | NotFound

fun star_loop :: "string \<Rightarrow> bool \<Rightarrow> string \<Rightarrow> star_result" where
  "star_loop chunk lastChunk [] = NotFound"
| "star_loop chunk lastChunk (c # name) =
    (if c = CHR ''/'' then NotFound
     else
       case matchChunk chunk name of
         Inr (Some t) \<Rightarrow> if lastChunk \<and> t \<noteq> [] then star_loop chunk lastChunk name else Found t
       | Inl e \<Rightarrow> Failed e
       | Inr None \<Rightarrow> star_loop chunk lastChunk name)"

text \<open>
  The last loop of \<open>Match\<close>: before it returns \<open>false\<close>, it checks that the rest of the
  pattern is well formed.
\<close>

function check_rest :: "string \<Rightarrow> error + bool" where
  "check_rest pattern =
    (if pattern = [] then Inr False
     else
       let (star, chunk, pattern') = scanChunk pattern in
       case matchChunk chunk [] of
         Inl e \<Rightarrow> Inl e
       | Inr r \<Rightarrow> check_rest pattern')"
  by pat_completeness auto
termination
  by (relation "measure length") (auto dest: scanChunk_shorter [OF sym])

declare check_rest.simps [simp del]

function Match :: "string \<Rightarrow> string \<Rightarrow> error + bool" where
  "Match pattern name =
    (if pattern = [] then Inr (name = [])
     else
       let (star, chunk, pattern') = scanChunk pattern in
       if star \<and> chunk = [] then Inr (CHR ''/'' \<notin> set name)
       else
         case matchChunk chunk name of
           Inl e \<Rightarrow> Inl e
         | Inr m \<Rightarrow>
             if (case m of Some t \<Rightarrow> t = [] \<or> pattern' \<noteq> [] | None \<Rightarrow> False)
             then Match pattern' (the m)
             else
               (case (if star then star_loop chunk (pattern' = []) name else NotFound) of
                  Found t \<Rightarrow> Match pattern' t
                | Failed e \<Rightarrow> Inl e
                | NotFound \<Rightarrow> check_rest pattern'))"
  by pat_completeness auto
termination
  by (relation "measure (\<lambda>(pattern, name). length pattern)")
     (auto dest: scanChunk_shorter [OF sym])

declare Match.simps [simp del]

text \<open>\<open>matchPattern\<close> of the repository: an invalid pattern falls back to equality.\<close>

definition matchPattern :: "string \<Rightarrow> string \<Rightarrow> bool" where
  "matchPattern pattern name =
    (case Match pattern name of
       Inl err \<Rightarrow> pattern = name
     | Inr ok \<Rightarrow> ok)"

section \<open>String helpers (packages \<open>strings\<close>, \<open>unicode\<close>, \<open>path\<close>)\<close>

definition HasPrefix :: "string \<Rightarrow> string \<Rightarrow> bool" where
  "HasPrefix s pre = (length pre \<le> length s \<and> take (length pre) s = pre)"

definition HasSuffix :: "string \<Rightarrow> string \<Rightarrow> bool" where
  "HasSuffix s suf = (length suf \<le> length s \<and> drop (length s - length suf) s = suf)"

definition TrimPrefix :: "string \<Rightarrow> string \<Rightarrow> string" where
  "TrimPrefix s pre = (if HasPrefix s pre then drop (length pre) s else s)"

definition TrimSuffix :: "string \<Rightarrow> string \<Rightarrow> string" where
  "TrimSuffix s suf = (if HasSuffix s suf then take (length s - length suf) s else s)"

fun Contains :: "string \<Rightarrow> string \<Rightarrow> bool" where
  "Contains [] sub = (sub = [])"
| "Contains (c # s) sub = (HasPrefix (c # s) sub \<or> Contains s sub)"

text \<open>
  \<open>unicode.IsSpace\<close>: the Latin-1 spaces, and the other code points of the Unicode
  property White_Space.
\<close>

definition IsSpace :: "int \<Rightarrow> bool" where
  "IsSpace r =
    (if 0 \<le> r \<and> r \<le> 0xFF
     then r \<in> {0x09, 0x0A, 0x0B, 0x0C, 0x0D, 0x20, 0x85, 0xA0}
     else r = 0x1680 \<or> (0x2000 \<le> r \<and> r \<le> 0x200A) \<or> r = 0x2028 \<or> r = 0x2029
          \<or> r = 0x202F \<or> r = 0x205F \<or> r = 0x3000)"

text \<open>
  \<open>utf8.DecodeLastRuneInString\<close>: it steps back at most \<open>UTFMax = 4\<close> bytes to a byte
  that can start a rune, decodes from there, and answers \<open>(RuneError, 1)\<close> unless that
  rune ends exactly at the end of the string.
\<close>

definition RuneStart :: "char \<Rightarrow> bool" where
  "RuneStart b = (\<not> (0x80 \<le> (of_char b :: int) \<and> (of_char b :: int) < 0xC0))"

function lastRuneStart :: "string \<Rightarrow> int \<Rightarrow> int \<Rightarrow> int" where
  "lastRuneStart s lim start =
    (if lim \<le> start
     then (if RuneStart (s ! nat start) then start else lastRuneStart s lim (start - 1))
     else start)"
  by pat_completeness auto
termination
  by (relation "measure (\<lambda>(s, lim, start). nat (start - lim + 1))") auto

declare lastRuneStart.simps [simp del]

definition DecodeLastRuneInString :: "string \<Rightarrow> int \<times> nat" where
  "DecodeLastRuneInString s =
    (let end = int (length s) in
     if end = 0 then (RuneError, 0)
     else
       let r = (of_char (s ! nat (end - 1)) :: int) in
       if r < 0x80 then (r, 1)
       else
         let lim = (if end - 4 < 0 then 0 else end - 4);
             start = lastRuneStart s lim (end - 2);
             start = (if start < 0 then 0 else start);
             (r, size) = DecodeRuneInString (drop (nat start) s)
         in if start + int size \<noteq> end then (RuneError, 1) else (r, size))"

text \<open>
  \<open>strings.TrimSpace\<close> removes the leading and the trailing runes that satisfy
  \<open>unicode.IsSpace\<close> (its ASCII fast path computes the same slice).
\<close>

function TrimLeftSpace :: "string \<Rightarrow> string" where
  "TrimLeftSpace s =
    (if s = [] then []
     else
       let (r, n) = DecodeRuneInString s in
       if IsSpace r then TrimLeftSpace (drop n s) else s)"
  by pat_completeness auto
termination
proof (relation "measure length", goal_cases)
  case 1
  show ?case by simp
next
  case (2 s x r n)
  then have "0 < n" using DecodeRuneInString_size [of s] by (metis snd_conv)
  with 2 show ?case by simp
qed

declare TrimLeftSpace.simps [simp del]

function TrimRightSpace :: "string \<Rightarrow> string" where
  "TrimRightSpace s =
    (if s = [] then []
     else
       let (r, n) = DecodeLastRuneInString s in
       if IsSpace r \<and> 0 < n then TrimRightSpace (take (length s - n) s) else s)"
  by pat_completeness auto
termination
  by (relation "measure length") auto

declare TrimRightSpace.simps [simp del]

definition TrimSpace :: "string \<Rightarrow> string" where
  "TrimSpace s = TrimRightSpace (TrimLeftSpace s)"

text \<open>\<open>path.Base\<close>: the last element of a slash-separated path.\<close>

definition Base :: "string \<Rightarrow> string" where
  "Base path =
    (if path = [] then ''.''
     else
       let path = rev (dropWhile (\<lambda>c. c = CHR ''/'') (rev path));
           path = rev (takeWhile (\<lambda>c. c \<noteq> CHR ''/'') (rev path))
       in if path = [] then ''/'' else path)"

section \<open>The ignore-rule engine\<close>

record gitIgnoreRule =
  pattern :: string
  negative :: bool
  anchored :: bool
  dirOnly :: bool
  hasSlash :: bool

record gitIgnore =
  root :: "string list"
  rules :: "gitIgnoreRule list"

text \<open>
  The body of the loop of \<open>loadGitIgnore\<close> for one line: \<open>None\<close> where the source
  says \<open>continue\<close>, the appended rule otherwise.
\<close>

definition parseLine :: "string \<Rightarrow> gitIgnoreRule option" where
  "parseLine line0 =
    (let line = TrimSpace line0 in
     if line = [] \<or> HasPrefix line ''#'' then None
     else
       let neg = HasPrefix line ''!'';
           line = (if neg then TrimSpace (drop 1 line) else line)
       in
       if neg \<and> line = [] then None
       else
         let dirOnly = HasSuffix line ''/'';
             line = (if dirOnly then TrimSuffix line ''/'' else line);
             anchored = HasPrefix line ''/'';
             line = (if anchored then TrimPrefix line ''/'' else line)
         in
         if line = [] then None
         else Some \<lparr>pattern = line, negative = neg, anchored = anchored, dirOnly = dirOnly,
                    hasSlash = Contains line ''/''\<rparr>)"

definition parseRules :: "string list \<Rightarrow> gitIgnoreRule list" where
  "parseRules lines = List.map_filter parseLine lines"

text \<open>
  \<open>normalizePath\<close> replaces \<open>os.PathSeparator\<close> by \<open>/\<close>.  The model is of a Unix
  system, where the separator is \<open>/\<close> already.
\<close>

definition PathSeparator :: char where
  "PathSeparator = CHR ''/''"

definition normalizePath :: "string \<Rightarrow> string" where
  "normalizePath p = map (\<lambda>c. if c = PathSeparator then CHR ''/'' else c) p"

text \<open>
  The loop over the suffixes of \<open>rel\<close> that start after a \<open>/\<close> (the last loop of
  \<open>match\<close>): whether one of them matches.
\<close>

fun suffixMatch :: "string \<Rightarrow> string \<Rightarrow> bool" where
  "suffixMatch pat [] = False"
| "suffixMatch pat (c # suf) =
    (if c = CHR ''/'' \<and> suf \<noteq> [] \<and> matchPattern pat suf then True
     else suffixMatch pat suf)"

text \<open>
  One iteration of the loop of \<open>match\<close> over the rules: the new value of the variable
  \<open>matched\<close>.
\<close>

definition ruleStep :: "string \<Rightarrow> bool \<Rightarrow> bool \<Rightarrow> gitIgnoreRule \<Rightarrow> bool" where
  "ruleStep rel isDir matched r =
    (if dirOnly r \<and> \<not> isDir then matched
     else if anchored r then
       (if matchPattern (pattern r) rel then \<not> negative r else matched)
     else if \<not> hasSlash r then
       (let base = Base rel;
            matched = (if matchPattern (pattern r) base then \<not> negative r else matched);
            matched = (if isDir \<and> pattern r = base then \<not> negative r else matched)
        in matched)
     else if matchPattern (pattern r) rel then \<not> negative r
     else if suffixMatch (pattern r) rel then \<not> negative r
     else matched)"

text \<open>\<open>match\<close>: the receiver may be \<open>nil\<close>.\<close>

definition match :: "gitIgnore option \<Rightarrow> string \<Rightarrow> bool \<Rightarrow> bool" where
  "match g rel isDir =
    (case g of
       None \<Rightarrow> False
     | Some gi \<Rightarrow> foldl (ruleStep (normalizePath rel) isDir) False (rules gi))"

section \<open>The annotation matcher\<close>

text \<open>
  The regular expression of \<open>scan.go\<close> is
  \<^verbatim>\<open>(?i)\b(TODO|FIXME|BUG|NOTE)\b:?(.+)?\<close>
  and \<open>FindStringSubmatch\<close> returns its leftmost match, preferring at each choice what
  a backtracking search tries first.  The pieces of the expression, in order:
  \<^item> \<^verbatim>\<open>\b\<close> is the ASCII word boundary: exactly one of the two neighbours is a word
    character \<^verbatim>\<open>[0-9A-Za-z_]\<close> (the start and the end of the text count as none);
  \<^item> under \<^verbatim>\<open>(?i)\<close> a letter matches both of its cases (none of the letters of the four
    keywords folds to a character outside ASCII);
  \<^item> the alternation tries the keywords from left to right;
  \<^item> \<^verbatim>\<open>:?\<close> takes a colon when there is one;
  \<^item> \<^verbatim>\<open>(.+)?\<close> takes every following character up to a line feed; when there is
    none the group does not take part and its submatch is the empty string.
\<close>

definition between :: "char \<Rightarrow> char \<Rightarrow> char \<Rightarrow> bool" where
  "between lo hi c = ((of_char lo :: nat) \<le> of_char c \<and> (of_char c :: nat) \<le> of_char hi)"

definition isWordChar :: "char \<Rightarrow> bool" where
  "isWordChar c =
    (between (CHR ''0'') (CHR ''9'') c \<or> between (CHR ''A'') (CHR ''Z'') c
     \<or> between (CHR ''a'') (CHR ''z'') c \<or> c = CHR ''_'')"

definition wordBoundary :: "char option \<Rightarrow> char option \<Rightarrow> bool" where
  "wordBoundary prev nxt =
    ((case prev of None \<Rightarrow> False | Some c \<Rightarrow> isWordChar c)
     \<noteq> (case nxt of None \<Rightarrow> False | Some c \<Rightarrow> isWordChar c))"

definition upperChar :: "char \<Rightarrow> char" where
  "upperChar c =
    (if between (CHR ''a'') (CHR ''z'') c then char_of (of_char c - (32 :: nat)) else c)"

text \<open>
  \<open>strings.ToUpper\<close>, on the strings the scanner applies it to: the first submatch
  consists of ASCII letters, which \<open>ToUpper\<close> maps to their capitals.
\<close>

definition ToUpper :: "string \<Rightarrow> string" where
  "ToUpper s = map upperChar s"

definition keywordList :: "string list" where
  "keywordList = [''TODO'', ''FIXME'', ''BUG'', ''NOTE'']"

definition headOf :: "string \<Rightarrow> char option" where
  "headOf s = (case s of [] \<Rightarrow> None | c # _ \<Rightarrow> Some c)"

text \<open>
  The expression from the alternation on, tried at one position of the text, for the
  alternatives \<open>kws\<close> that are left: an alternative that matches its letters but is
  not followed by a word boundary fails, and the next alternative is tried.  The result
  is the pair of submatches \<open>(m[1], m[2])\<close>.
\<close>

fun tryAlternatives :: "string list \<Rightarrow> string \<Rightarrow> (string \<times> string) option" where
  "tryAlternatives [] text = None"
| "tryAlternatives (kw # kws) text =
    (let m1 = take (length kw) text;
         rest = drop (length kw) text
     in
     if length kw \<le> length text \<and> ToUpper m1 = kw
        \<and> wordBoundary (Some (last m1)) (headOf rest)
     then
       (let rest = (if headOf rest = Some (CHR '':'') then tl rest else rest)
        in Some (m1, takeWhile (\<lambda>c. c \<noteq> CHR 0x0A) rest))
     else tryAlternatives kws text)"

text \<open>The whole expression at one position: \<open>prev\<close> is the preceding character.\<close>

definition matchHere :: "char option \<Rightarrow> string \<Rightarrow> (string \<times> string) option" where
  "matchHere prev text =
    (if wordBoundary prev (headOf text) then tryAlternatives keywordList text else None)"

text \<open>The leftmost match: the search moves one character to the right on failure.\<close>

fun findFrom :: "char option \<Rightarrow> string \<Rightarrow> (string \<times> string) option" where
  "findFrom prev [] = matchHere prev []"
| "findFrom prev (c # text) =
    (case matchHere prev (c # text) of
       Some m \<Rightarrow> Some m
     | None \<Rightarrow> findFrom (Some c) text)"

definition FindStringSubmatch :: "string \<Rightarrow> (string \<times> string) option" where
  "FindStringSubmatch line = findFrom None line"

section \<open>Scanning one file\<close>

record Todo =
  File :: string
  Line :: int
  Tag :: string
  Text :: string

text \<open>
  A \<open>FileReader\<close> is the injected capability of the scanner.  What \<open>Open\<close> returns is
  modelled by what \<open>scanFileWithReader\<close> observes of it: either the error of \<open>Open\<close>,
  or the lines that the \<open>bufio.Scanner\<close> delivers before it stops together with the
  scanner's final \<open>Err()\<close> (a read error, or a line longer than the scanner's buffer).
\<close>

type_synonym scanned = "string list \<times> error option"

type_synonym opened = "error + scanned"

text \<open>The body of the \<open>for sc.Scan()\<close> loop, for the line numbered \<open>lineNum\<close>.\<close>

definition lineTodo :: "string \<Rightarrow> int \<Rightarrow> string \<Rightarrow> Todo option" where
  "lineTodo path lineNum line =
    (case FindStringSubmatch line of
       None \<Rightarrow> None
     | Some (m1, m2) \<Rightarrow>
         Some \<lparr>File = path, Line = lineNum, Tag = ToUpper m1, Text = TrimSpace m2\<rparr>)"

fun scanLoop :: "string \<Rightarrow> int \<Rightarrow> string list \<Rightarrow> Todo list \<Rightarrow> Todo list" where
  "scanLoop path lineNum [] todos = todos"
| "scanLoop path lineNum (line # rest) todos =
    (let lineNum = lineNum + 1 in
     scanLoop path lineNum rest
       (case lineTodo path lineNum line of
          None \<Rightarrow> todos
        | Some t \<Rightarrow> todos @ [t]))"

text \<open>
  \<open>scanFileWithReader\<close>, given what the reader's \<open>Open path\<close> yields: the records and the
  error it returns.
\<close>

definition scanFileWithReader :: "string \<Rightarrow> (string \<Rightarrow> opened) \<Rightarrow> Todo list \<times> error option" where
  "scanFileWithReader path Open =
    (case Open path of
       Inl err \<Rightarrow> ([], Some err)
     | Inr (lines, scErr) \<Rightarrow> (scanLoop path 0 lines [], scErr))"

section \<open>The filesystem\<close>

text \<open>
  The scanner meets the filesystem through \<open>os.Stat\<close>, \<open>os.Open\<close>, \<open>os.Lstat\<close> and
  \<open>os.ReadDir\<close> (the last two inside \<open>filepath.WalkDir\<close>).  The filesystem is a tree.
  A file node holds what opening and line-scanning it yields; a directory node holds
  the entries \<open>ReadDir\<close> returns, in the order it returns them, and the error it
  returns with them, if any.

  Paths are absolute and clean: a path is the list of its elements below the
  filesystem root.  For such paths \<open>filepath.Join p name\<close> appends an element,
  \<open>filepath.Dir\<close> removes the last one (and leaves the root as it is), and
  \<open>filepath.Rel\<close> is the difference of two element lists.  Symbolic links are not
  modelled.
\<close>

datatype fnode =
    FileNode opened
  | DirNode "(string \<times> fnode) list" "error option"

type_synonym path = "string list"

fun isDirNode :: "fnode \<Rightarrow> bool" where
  "isDirNode (DirNode entries err) = True"
| "isDirNode (FileNode content) = False"

fun lookup :: "fnode \<Rightarrow> path \<Rightarrow> fnode option" where
  "lookup node [] = Some node"
| "lookup (FileNode content) (name # p) = None"
| "lookup (DirNode entries err) (name # p) =
    (case map_of entries name of
       None \<Rightarrow> None
     | Some child \<Rightarrow> lookup child p)"

definition Join :: "path \<Rightarrow> string \<Rightarrow> path" where
  "Join p name = p @ [name]"

definition Dir :: "path \<Rightarrow> path" where
  "Dir p = butlast p"

text \<open>The path as a string: \<open>/a/b\<close>, and \<open>/\<close> for the root.\<close>

definition pathString :: "path \<Rightarrow> string" where
  "pathString p = (if p = [] then ''/'' else concat (map (\<lambda>name. CHR ''/'' # name) p))"

text \<open>The elements of a path string, as name resolution reads it.\<close>

fun elements :: "string \<Rightarrow> string \<Rightarrow> path" where
  "elements cur [] = (if cur = [] then [] else [cur])"
| "elements cur (c # s) =
    (if c = CHR ''/'' then (if cur = [] then elements [] s else cur # elements [] s)
     else elements (cur @ [c]) s)"

text \<open>
  \<open>filepath.Rel base targ\<close> on clean absolute paths, as a string: the common elements
  are dropped, each element left of \<open>base\<close> becomes \<open>..\<close>, and equal paths give \<open>.\<close>.
\<close>

fun relElements :: "path \<Rightarrow> path \<Rightarrow> path" where
  "relElements (b # base) (t # targ) =
    (if b = t then relElements base targ else map (\<lambda>x. ''..'') (b # base) @ (t # targ))"
| "relElements base targ = map (\<lambda>x. ''..'') base @ targ"

fun joinElements :: "path \<Rightarrow> string" where
  "joinElements [] = []"
| "joinElements [name] = name"
| "joinElements (name # p) = name @ CHR ''/'' # joinElements p"

definition Rel :: "path \<Rightarrow> path \<Rightarrow> string" where
  "Rel base targ = (let p = relElements base targ in if p = [] then ''.'' else joinElements p)"

text \<open>\<open>os.Stat\<close>, \<open>os.Lstat\<close>: whether the path exists, and whether it is a directory.\<close>

definition Stat :: "fnode \<Rightarrow> path \<Rightarrow> error + bool" where
  "Stat fs p = (case lookup fs p of None \<Rightarrow> Inl ErrNotExist | Some node \<Rightarrow> Inr (isDirNode node))"

text \<open>
  \<open>os.Open\<close> followed by line scanning.  A directory can be opened, but reading it
  fails at once.
\<close>

definition osOpen :: "fnode \<Rightarrow> path \<Rightarrow> opened" where
  "osOpen fs p =
    (case lookup fs p of
       None \<Rightarrow> Inl ErrNotExist
     | Some (FileNode content) \<Rightarrow> content
     | Some (DirNode entries err) \<Rightarrow> Inr ([], Some ErrIO))"

section \<open>\<open>findRepoRoot\<close> and \<open>loadGitIgnore\<close>\<close>

function findRepoRoot_loop :: "fnode \<Rightarrow> path \<Rightarrow> path \<Rightarrow> path" where
  "findRepoRoot_loop fs start d =
    (if Stat fs (Join d ''.git'') = Inr True then d
     else
       let parent = Dir d in
       if parent = d then start
       else findRepoRoot_loop fs start parent)"
  by pat_completeness auto
termination
proof (relation "measure (\<lambda>(fs, start, d). length d)", goal_cases)
  case 1
  show ?case by simp
next
  case (2 fs start d parent)
  then have "d \<noteq> []" by (auto simp: Dir_def)
  with 2 show ?case by (simp add: Dir_def)
qed

declare findRepoRoot_loop.simps [simp del]

definition findRepoRoot :: "fnode \<Rightarrow> path \<Rightarrow> path" where
  "findRepoRoot fs start = findRepoRoot_loop fs start start"

text \<open>
  \<open>loadGitIgnore\<close>: \<open>nil\<close> when the file cannot be opened; an error of the scanner is
  ignored.
\<close>

definition loadGitIgnore :: "fnode \<Rightarrow> path \<Rightarrow> gitIgnore option" where
  "loadGitIgnore fs base =
    (case osOpen fs (Join base ''.gitignore'') of
       Inl err \<Rightarrow> None
     | Inr (lines, scErr) \<Rightarrow> Some \<lparr>root = base, rules = parseRules lines\<rparr>)"

section \<open>\<open>filepath.WalkDir\<close>\<close>

record DirEntry =
  Name :: string
  IsDir :: bool

text \<open>
  A \<open>WalkDirFunc\<close> gets the path, the entry (\<open>nil\<close> when \<open>Lstat\<close> of the root failed)
  and an error; it returns an error.  What it does besides is a change of a state
  \<open>'s\<close>, passed along the walk.
\<close>

type_synonym 's WalkDirFunc = "path \<Rightarrow> DirEntry option \<Rightarrow> error option \<Rightarrow> 's \<Rightarrow> error option \<times> 's"

text \<open>
  \<open>walkDir\<close> calls the function on the entry; for a directory it reads the entries
  (reporting a failure of \<open>ReadDir\<close> by a second call of the function) and walks
  them.  \<open>SkipDir\<close> from a directory skips it; \<open>SkipDir\<close> from a file skips the rest of
  its directory; every other error ends the walk.
\<close>

fun walkDir :: "path \<Rightarrow> string \<Rightarrow> fnode \<Rightarrow> 's WalkDirFunc \<Rightarrow> 's \<Rightarrow> error option \<times> 's"
  and walkEntries :: "path \<Rightarrow> (string \<times> fnode) list \<Rightarrow> 's WalkDirFunc \<Rightarrow> 's \<Rightarrow> error option \<times> 's"
where
  "walkDir p name (FileNode content) fn st =
    fn p (Some \<lparr>Name = name, IsDir = False\<rparr>) None st"
| "walkDir p name (DirNode entries readErr) fn st =
    (let d = \<lparr>Name = name, IsDir = True\<rparr> in
     case fn p (Some d) None st of
       (Some err, st) \<Rightarrow> (if err = SkipDir then None else Some err, st)
     | (None, st) \<Rightarrow>
         (case (case readErr of None \<Rightarrow> (None, st) | Some err \<Rightarrow> fn p (Some d) (Some err) st) of
            (Some err, st) \<Rightarrow> (if err = SkipDir then None else Some err, st)
          | (None, st) \<Rightarrow> walkEntries p entries fn st))"
| "walkEntries p [] fn st = (None, st)"
| "walkEntries p ((name, child) # entries) fn st =
    (case walkDir (Join p name) name child fn st of
       (Some err, st) \<Rightarrow> (if err = SkipDir then None else Some err, st)
     | (None, st) \<Rightarrow> walkEntries p entries fn st)"

text \<open>The name of the root entry is the last element of the path.\<close>

definition baseName :: "path \<Rightarrow> string" where
  "baseName p = (if p = [] then ''/'' else last p)"

definition WalkDir :: "fnode \<Rightarrow> path \<Rightarrow> 's WalkDirFunc \<Rightarrow> 's \<Rightarrow> error option \<times> 's" where
  "WalkDir fs rt fn st =
    (case (case lookup fs rt of
             None \<Rightarrow> fn rt None (Some ErrNotExist) st
           | Some node \<Rightarrow> walkDir rt (baseName rt) node fn st) of
       (err, st) \<Rightarrow> (if err = Some SkipDir \<or> err = Some SkipAll then None else err, st))"

section \<open>\<open>ScanDirWithReader\<close>\<close>

text \<open>
  The reader is the real one, or an injected one given by what its \<open>Open\<close> yields for
  a name.
\<close>

datatype FileReader = OSFileReader | OtherReader "string \<Rightarrow> opened"

fun readerOpen :: "fnode \<Rightarrow> FileReader \<Rightarrow> string \<Rightarrow> opened" where
  "readerOpen fs OSFileReader name = osOpen fs (elements [] name)"
| "readerOpen fs (OtherReader f) name = f name"

text \<open>The type assertion \<open>reader.(OSFileReader)\<close>.\<close>

fun isOSFileReader :: "FileReader \<Rightarrow> bool" where
  "isOSFileReader OSFileReader = True"
| "isOSFileReader (OtherReader f) = False"

record fileJob =
  rel :: string
  openPath :: string

text \<open>
  The function literal passed to \<open>filepath.WalkDir\<close>.  Its free variables are
  arguments here: the set \<open>skip\<close> (as the list of its keys), \<open>repoRoot\<close>, \<open>gi\<close>, the
  scan root and the reader.  Its effect is to send jobs on the channel \<open>jobs\<close>: the
  state is the sequence of jobs sent so far.
\<close>

definition walkFn :: "string list \<Rightarrow> path \<Rightarrow> gitIgnore option \<Rightarrow> path \<Rightarrow> FileReader
    \<Rightarrow> fileJob list WalkDirFunc" where
  "walkFn skip repoRoot gi rt reader p d err jobs =
    (if err \<noteq> None then (None, jobs)
     else if IsDir (the d) then
       (if Name (the d) = ''.git'' then (Some SkipDir, jobs)
        else if Name (the d) \<in> set skip then (Some SkipDir, jobs)
        else if gi \<noteq> None \<and> match gi (Rel repoRoot p) True then (Some SkipDir, jobs)
        else (None, jobs))
     else
       let relPath = Rel rt p in
       if gi \<noteq> None \<and> match gi (Rel repoRoot p) False then (None, jobs)
       else
         let openPath = (if isOSFileReader reader then pathString p else relPath)
         in (None, jobs @ [\<lparr>rel = relPath, openPath = openPath\<rparr>]))"

text \<open>
  The body of a worker's loop for one job: the shared slice \<open>todos\<close> before and after.
\<close>

definition worker :: "fnode \<Rightarrow> FileReader \<Rightarrow> Todo list \<Rightarrow> fileJob \<Rightarrow> Todo list" where
  "worker fs reader todos job =
    (case scanFileWithReader (openPath job) (readerOpen fs reader) of
       (fileTodos, err) \<Rightarrow>
         if err = None \<and> 0 < length fileTodos
         then todos @ map (\<lambda>t. t\<lparr>File := rel job\<rparr>) fileTodos
         else todos)"

text \<open>
  The part of \<open>ScanDirWithReader\<close> after \<open>repoRoot\<close> and \<open>gi\<close> are known.  The walk
  sends the jobs in a fixed order.  The workers take them from the channel
  concurrently, and each appends the records of its file under the mutex, so the
  returned slice is the concatenation of the per-file batches in the order in which
  the workers finish.  The model takes the schedule in which the jobs finish in the
  order they were sent.
\<close>

definition scanWith :: "fnode \<Rightarrow> path \<Rightarrow> string list \<Rightarrow> FileReader \<Rightarrow> path \<Rightarrow> gitIgnore option
    \<Rightarrow> Todo list \<times> error option" where
  "scanWith fs rt ignoreDirs reader repoRoot gi =
    (let skip = map TrimSpace ignoreDirs;
         (err, jobs) = WalkDir fs rt (walkFn skip repoRoot gi rt reader) [];
         todos = foldl (worker fs reader) [] jobs
     in (todos, err))"

definition ScanDirWithReader :: "fnode \<Rightarrow> path \<Rightarrow> string list \<Rightarrow> FileReader
    \<Rightarrow> Todo list \<times> error option" where
  "ScanDirWithReader fs rt ignoreDirs reader =
    (let repoRoot = findRepoRoot fs rt;
         gi = loadGitIgnore fs repoRoot
     in scanWith fs rt ignoreDirs reader repoRoot gi)"

definition ScanDir :: "fnode \<Rightarrow> path \<Rightarrow> string list \<Rightarrow> Todo list \<times> error option" where
  "ScanDir fs rt ignoreDirs = ScanDirWithReader fs rt ignoreDirs OSFileReader"

section \<open>The worker pool\<close>

text \<open>The jobs that the walk of a scan sends, in the order in which it sends them.\<close>

definition scanJobs :: "fnode \<Rightarrow> path \<Rightarrow> string list \<Rightarrow> FileReader \<Rightarrow> fileJob list" where
  "scanJobs fs rt ignoreDirs reader =
    snd (WalkDir fs rt
           (walkFn (map TrimSpace ignoreDirs) (findRepoRoot fs rt)
              (loadGitIgnore fs (findRepoRoot fs rt)) rt reader) [])"

text \<open>
  The goroutines of \<open>ScanDirWithReader\<close> as a transition system.  The producer is the
  walk: \<open>pending\<close> are the jobs it has yet to send.  \<open>buffer\<close> is the content of the
  channel \<open>jobs\<close>, \<open>closed\<close> says whether \<open>close(jobs)\<close> has run, \<open>merged\<close> is the shared
  slice \<open>todos\<close>.  Each worker is at one of four places of its loop: receiving from the
  channel, scanning the file of the job it received, holding the records of a file
  before the mutex, or past the loop (its \<open>wg.Done\<close> has run).
\<close>

datatype wstate = Receiving | Scanning fileJob | Holding "Todo list" | Exited

record pool =
  pending :: "fileJob list"
  buffer :: "fileJob list"
  closed :: bool
  workers :: "wstate list"
  merged :: "Todo list"

definition initial :: "nat \<Rightarrow> fileJob list \<Rightarrow> pool" where
  "initial n jobs =
    \<lparr>pending = jobs, buffer = [], closed = False, workers = replicate n Receiving, merged = []\<rparr>"

text \<open>\<open>wg.Wait()\<close> returns, after \<open>close(jobs)\<close>, once every worker has left its loop.\<close>

definition finished :: "pool \<Rightarrow> bool" where
  "finished s = (pending s = [] \<and> closed s \<and> list_all (\<lambda>w. w = Exited) (workers s))"

text \<open>
  One step of one goroutine, for a channel of capacity \<open>cap\<close> (64 in the source):
  \<^item> \<open>send\<close>: the walk sends its next job; it can do so only while the channel has room;
  \<^item> \<open>close\<close>: after the walk has sent every job, the producer closes the channel;
  \<^item> \<open>receive\<close>: a worker takes the first job of the channel;
  \<^item> \<open>scan\<close>, \<open>skip\<close>: it scans the file; with no error and at least one record it
    relabels the records and goes for the mutex, otherwise it goes back to receiving;
  \<^item> \<open>merge\<close>: under the mutex it appends its records to the shared slice;
  \<^item> \<open>leave\<close>: a worker receiving from the closed and empty channel leaves its loop.
\<close>

inductive step :: "nat \<Rightarrow> fnode \<Rightarrow> FileReader \<Rightarrow> pool \<Rightarrow> pool \<Rightarrow> bool"
  for cap :: nat and fs :: fnode and reader :: FileReader
where
  send: "pending s = job # jobs \<Longrightarrow> length (buffer s) < cap \<Longrightarrow>
         step cap fs reader s (s\<lparr>pending := jobs, buffer := buffer s @ [job]\<rparr>)"
| close: "pending s = [] \<Longrightarrow> \<not> closed s \<Longrightarrow>
         step cap fs reader s (s\<lparr>closed := True\<rparr>)"
| receive: "i < length (workers s) \<Longrightarrow> workers s ! i = Receiving \<Longrightarrow> buffer s = job # q \<Longrightarrow>
         step cap fs reader s (s\<lparr>buffer := q, workers := (workers s)[i := Scanning job]\<rparr>)"
| scan: "i < length (workers s) \<Longrightarrow> workers s ! i = Scanning job \<Longrightarrow>
         scanFileWithReader (openPath job) (readerOpen fs reader) = (fileTodos, err) \<Longrightarrow>
         err = None \<and> 0 < length fileTodos \<Longrightarrow>
         step cap fs reader s
           (s\<lparr>workers := (workers s)[i := Holding (map (\<lambda>t. t\<lparr>File := rel job\<rparr>) fileTodos)]\<rparr>)"
| skip: "i < length (workers s) \<Longrightarrow> workers s ! i = Scanning job \<Longrightarrow>
         scanFileWithReader (openPath job) (readerOpen fs reader) = (fileTodos, err) \<Longrightarrow>
         \<not> (err = None \<and> 0 < length fileTodos) \<Longrightarrow>
         step cap fs reader s (s\<lparr>workers := (workers s)[i := Receiving]\<rparr>)"
| merge: "i < length (workers s) \<Longrightarrow> workers s ! i = Holding fileTodos \<Longrightarrow>
         step cap fs reader s
           (s\<lparr>workers := (workers s)[i := Receiving], merged := merged s @ fileTodos\<rparr>)"
| leave: "i < length (workers s) \<Longrightarrow> workers s ! i = Receiving \<Longrightarrow> buffer s = [] \<Longrightarrow>
         closed s \<Longrightarrow>
         step cap fs reader s (s\<lparr>workers := (workers s)[i := Exited]\<rparr>)"

text \<open>The records that a job adds to the shared slice.\<close>

definition batchOf :: "fnode \<Rightarrow> FileReader \<Rightarrow> fileJob \<Rightarrow> Todo list" where
  "batchOf fs reader job = worker fs reader [] job"

text \<open>
  Bookkeeping for the proofs: the records a worker is about to merge; all records of a
  state, merged or still to come; the bound on the steps that are left; and the order
  of events (a closed channel has no pending job, and a worker leaves only when the
  channel is closed and empty).
\<close>

fun held :: "fnode \<Rightarrow> FileReader \<Rightarrow> wstate \<Rightarrow> Todo list" where
  "held fs reader (Scanning job) = batchOf fs reader job"
| "held fs reader (Holding fileTodos) = fileTodos"
| "held fs reader Receiving = []"
| "held fs reader Exited = []"

definition account :: "fnode \<Rightarrow> FileReader \<Rightarrow> pool \<Rightarrow> Todo multiset" where
  "account fs reader s =
    mset (merged s) + mset (concat (map (held fs reader) (workers s)))
    + mset (concat (map (batchOf fs reader) (buffer s)))
    + mset (concat (map (batchOf fs reader) (pending s)))"

fun weight :: "wstate \<Rightarrow> nat" where
  "weight (Scanning job) = 3"
| "weight (Holding fileTodos) = 2"
| "weight Receiving = 1"
| "weight Exited = 0"

definition remaining :: "pool \<Rightarrow> nat" where
  "remaining s =
    4 * length (pending s) + 3 * length (buffer s) + sum_list (map weight (workers s))
    + (if closed s then 0 else 1)"

definition orderly :: "nat \<Rightarrow> pool \<Rightarrow> bool" where
  "orderly n s =
    (length (workers s) = n
     \<and> (if closed s then pending s = [] else True)
     \<and> (if Exited \<in> set (workers s) then closed s \<and> buffer s = [] else True))"

section \<open>Example trees\<close>


text \<open>
  A directory \<open>/work\<close> with one file whose first line matches and whose scan then ends
  with a read error.
\<close>

definition fsBroken :: fnode where
  "fsBroken =
    DirNode [(''work'', DirNode [(''a.go'', FileNode (Inr ([''// TODO: first''], Some ErrIO)))]
                          None)] None"

section \<open>Notions of the specification\<close>

text \<open>
  The records that the lines of a file produce: one for each line that the matcher
  matches, numbered from 1, in the order of the lines.
\<close>

definition fileRecords :: "string \<Rightarrow> string list \<Rightarrow> Todo list" where
  "fileRecords path lines =
    List.map_filter (\<lambda>(i, line). lineTodo path (int i + 1) line) (enumerate 0 lines)"

text \<open>
  A rule applies to a candidate path, in the words of the specification: a
  directory-only rule applies to directories only; an anchored rule matches the whole
  path; an unanchored rule without a separator matches the base name, or is equal to
  the base name of a directory; an unanchored rule with a separator matches the whole
  path or a suffix of it that starts right after a \<open>/\<close>.
\<close>

definition ruleApplies :: "string \<Rightarrow> bool \<Rightarrow> gitIgnoreRule \<Rightarrow> bool" where
  "ruleApplies path isDir r =
    ((if dirOnly r then isDir else True)
     \<and> (if anchored r then matchPattern (pattern r) path
        else if \<not> hasSlash r
          then matchPattern (pattern r) (Base path) \<or> (isDir \<and> pattern r = Base path)
          else matchPattern (pattern r) path
               \<or> (\<exists>i \<in> {0..<length path}. path ! i = CHR ''/'' \<and> drop (Suc i) path \<noteq> []
                     \<and> matchPattern (pattern r) (drop (Suc i) path))))"

text \<open>
  The verdict of the last rule that applies, in declaration order: excluded unless
  that rule is negative; not excluded when no rule applies.
\<close>

definition lastVerdict :: "string \<Rightarrow> bool \<Rightarrow> gitIgnoreRule list \<Rightarrow> bool" where
  "lastVerdict path isDir rs =
    (case filter (ruleApplies path isDir) rs of
       [] \<Rightarrow> False
     | r # ms \<Rightarrow> \<not> negative (last (r # ms)))"

text \<open>
  A malformed glob pattern: one of its chunks is rejected by the syntax check that
  \<open>path.Match\<close> itself runs over a pattern (the loop \<open>check_rest\<close>).
\<close>

definition malformed :: "string \<Rightarrow> bool" where
  "malformed pat = isl (check_rest pat)"

text \<open>
  A keyword occurs in a line at position \<open>i\<close> as a whole word, whatever the case of its
  letters: the letters at \<open>i\<close> are those of the keyword, and neither the character before
  them nor the character after them is a word character.
\<close>

definition keywordAt :: "string \<Rightarrow> nat \<Rightarrow> string \<Rightarrow> bool" where
  "keywordAt line i kw =
    (kw \<in> set keywordList \<and> i + length kw \<le> length line
     \<and> ToUpper (take (length kw) (drop i line)) = kw
     \<and> (i = 0 \<or> \<not> isWordChar (line ! (i - 1)))
     \<and> (i + length kw = length line \<or> \<not> isWordChar (line ! (i + length kw))))"

text \<open>The characters after the keyword at \<open>i\<close> and its optional colon.\<close>

definition afterKeyword :: "string \<Rightarrow> nat \<Rightarrow> string \<Rightarrow> string" where
  "afterKeyword line i kw =
    (let rest = drop (i + length kw) line
     in if rest \<noteq> [] \<and> hd rest = CHR '':'' then tl rest else rest)"

text \<open>
  Auxiliary notions for the matcher: an alternative matches at the start of a text (its
  letters, and the word boundary after them); the submatches it then yields; the
  character before a position of a line.
\<close>

definition startsWith :: "string \<Rightarrow> string \<Rightarrow> bool" where
  "startsWith text kw =
    (length kw \<le> length text \<and> ToUpper (take (length kw) text) = kw
     \<and> wordBoundary (Some (last (take (length kw) text))) (headOf (drop (length kw) text)))"

definition submatches :: "string \<Rightarrow> string \<Rightarrow> string \<times> string" where
  "submatches text kw =
    (take (length kw) text,
     takeWhile (\<lambda>c. c \<noteq> CHR 0x0A)
       (if headOf (drop (length kw) text) = Some (CHR '':'') then tl (drop (length kw) text)
        else drop (length kw) text))"

definition charBefore :: "string \<Rightarrow> nat \<Rightarrow> char option" where
  "charBefore line i = (if i = 0 then None else Some (line ! (i - 1)))"

text \<open>
  The number of matching lines among the lines of a file, and the number of matching
  lines of the files of a list of jobs that are opened and scanned without error.
\<close>

definition matchingLines :: "string list \<Rightarrow> nat" where
  "matchingLines lines = length (filter (\<lambda>line. FindStringSubmatch line \<noteq> None) lines)"

definition readableMatches :: "fnode \<Rightarrow> FileReader \<Rightarrow> fileJob list \<Rightarrow> nat" where
  "readableMatches fs reader jobs =
    sum_list (map (\<lambda>job. case readerOpen fs reader (openPath job) of
                             Inl err \<Rightarrow> 0
                           | Inr (lines, Some err) \<Rightarrow> 0
                           | Inr (lines, None) \<Rightarrow> matchingLines lines) jobs)"


section \<open>The repo-root resolver\<close>





section \<open>Errors of the walk\<close>

lemma walkFn_error:
  "walkFn skip repoRoot gi rt reader p d (Some e) jobs = (None, jobs)"
  by (simp add: walkFn_def)

lemma walkFn_cases:
  "walkFn skip repoRoot gi rt reader p d err jobs = (r, jobs')
   \<Longrightarrow> r = None \<or> r = Some SkipDir"
  by (auto simp: walkFn_def Let_def split: if_splits)

lemma walk_no_error:
  "fst (walkDir p name node (walkFn skip repoRoot gi rt reader) st) = None"
  "fst (walkEntries p es (walkFn skip repoRoot gi rt reader) st) = None"
proof (induction p name node "walkFn skip repoRoot gi rt reader" st
         and p es "walkFn skip repoRoot gi rt reader" st
       rule: walkDir_walkEntries.induct)
  case (1 p name content st)
  then show ?case by (simp add: walkFn_def Let_def)
next
  case (2 p name entries readErr st)
  then show ?case
    by (auto simp: Let_def walkFn_error split: prod.splits option.splits dest: walkFn_cases)
next
  case (3 p st)
  then show ?case by simp
next
  case (4 p name child entries st)
  then show ?case
    by (auto split: prod.splits option.splits)
qed

lemma walkDir_no_error:
  "walkDir p name node (walkFn skip repoRoot gi rt reader) st = (r, st') \<Longrightarrow> r = None"
  using walk_no_error(1) [of p name node skip repoRoot gi rt reader st] by simp

lemma WalkDir_no_error:
  "fst (WalkDir fs rt (walkFn skip repoRoot gi rt' reader) st) = None"
  by (auto simp: WalkDir_def walkFn_error split: option.splits prod.splits
           dest: walkDir_no_error)

lemma scanWith_no_error: "snd (scanWith fs rt ignoreDirs reader repoRoot gi) = None"
  using WalkDir_no_error [of fs rt "map TrimSpace ignoreDirs" repoRoot gi rt reader "[]"]
  by (auto simp: scanWith_def Let_def split: prod.splits)

text \<open>
  Claim C1 says that a structural failure of the walk, such as a root path that does
  not exist, is returned as the error of the scan.  The code does not do so: the walk
  function answers \<open>nil\<close> to every error it is handed, the failed \<open>Lstat\<close> of the
  root included, so \<open>filepath.WalkDir\<close> has nothing to return.  On the empty
  filesystem the scan of the missing directory \<open>/missing\<close> returns no records and no
  error.
\<close>

theorem scan_missing_root_counterexample:
  "lookup (DirNode [] None) [''missing''] = None
   \<and> ScanDir (DirNode [] None) [''missing''] [] = ([], None)"
  by (simp add: ScanDir_def ScanDirWithReader_def scanWith_def WalkDir_def walkFn_error)

text \<open>
  Claim C1, amended.  The error returned by the scan is always \<open>nil\<close>.  When the root
  path does not exist the scan returns no records (and no error).  An error on an
  entry is swallowed and the traversal continues: a directory whose listing reports an
  error is walked exactly as if the listing had reported none.
\<close>

theorem scan_error_always_nil:
  "snd (ScanDirWithReader fs rt ignoreDirs reader) = None
   \<and> (lookup fs rt = None \<longrightarrow> ScanDirWithReader fs rt ignoreDirs reader = ([], None))
   \<and> walkDir p name (DirNode entries (Some e)) (walkFn skip repoRoot gi rt reader) jobs
       = walkDir p name (DirNode entries None) (walkFn skip repoRoot gi rt reader) jobs"
  by (auto simp: ScanDirWithReader_def Let_def scanWith_no_error scanWith_def WalkDir_def
                 walkFn_error
           split: prod.splits option.splits dest: walkDir_no_error)

theorem scan_error_always_nil_witness:
  "lookup (DirNode [] None) [''gone''] = None
   \<and> ScanDirWithReader (DirNode [] None) [''gone''] [] OSFileReader = ([], None)"
  using scan_error_always_nil [of "DirNode [] None" "[''gone'']" "[]" OSFileReader]
  by simp

section \<open>The anchor of the ignore rules\<close>




section \<open>Merging the records of a file\<close>

lemma scanLoop_records:
  "scanLoop path (int n) lines todos
   = todos @ List.map_filter (\<lambda>(i, line). lineTodo path (int i + 1) line) (enumerate n lines)"
proof (induction lines arbitrary: n todos)
  case Nil
  then show ?case by (simp add: List.map_filter_simps)
next
  case (Cons line lines)
  then show ?case
    using Cons.IH [of "Suc n"]
    by (simp add: Let_def List.map_filter_simps ac_simps split: option.splits)
qed

lemma scanLoop_fileRecords: "scanLoop path 0 lines [] = fileRecords path lines"
  using scanLoop_records [of path 0 lines "[]"] by (simp add: fileRecords_def)

text \<open>
  Claim C9.  What a worker merges for a job is all or nothing.  If \<open>Open\<close> fails, or if
  the line scanner ends with an error (whatever lines it delivered before, and whatever
  they matched), the shared result is left as it was; otherwise the worker appends
  every record that the lines of the file produce, each with the job's display path.
  The last conjunct is a read error after a line that matched.
\<close>

theorem worker_all_or_nothing:
  "worker fs reader todos job =
     todos @ (case readerOpen fs reader (openPath job) of
                Inl err \<Rightarrow> []
              | Inr (lines, Some err) \<Rightarrow> []
              | Inr (lines, None) \<Rightarrow>
                  map (\<lambda>t. t\<lparr>File := rel job\<rparr>) (fileRecords (openPath job) lines))
   \<and> fileRecords ''a.go'' [''// TODO: first''] \<noteq> []
   \<and> worker fs (OtherReader (\<lambda>name. Inr ([''// TODO: first''], Some ErrIO))) todos
        \<lparr>rel = ''a.go'', openPath = ''a.go''\<rparr> = todos"
proof (intro conjI)
  show "worker fs reader todos job =
     todos @ (case readerOpen fs reader (openPath job) of
                Inl err \<Rightarrow> []
              | Inr (lines, Some err) \<Rightarrow> []
              | Inr (lines, None) \<Rightarrow>
                  map (\<lambda>t. t\<lparr>File := rel job\<rparr>) (fileRecords (openPath job) lines))"
    by (auto simp: worker_def scanFileWithReader_def scanLoop_fileRecords
             split: sum.splits prod.splits option.splits)
  show "fileRecords ''a.go'' [''// TODO: first''] \<noteq> []"
    by code_simp
  show "worker fs (OtherReader (\<lambda>name. Inr ([''// TODO: first''], Some ErrIO))) todos
        \<lparr>rel = ''a.go'', openPath = ''a.go''\<rparr> = todos"
    by (simp add: worker_def scanFileWithReader_def)
qed

section \<open>The explicit ignore names\<close>





















section \<open>Rule precedence\<close>

lemma normalizePath_id: "normalizePath p = p"
  by (induction p) (auto simp: normalizePath_def PathSeparator_def)

lemma suffixMatch_iff:
  "suffixMatch pat path
   = (\<exists>i \<in> {0..<length path}. path ! i = CHR ''/'' \<and> drop (Suc i) path \<noteq> []
        \<and> matchPattern pat (drop (Suc i) path))"
proof (induction path)
  case Nil
  then show ?case by simp
next
  case (Cons c path)
  have split: "\<And>P. (\<exists>i \<in> {0..<length (c # path)}. P i) = (P 0 \<or> (\<exists>i \<in> {0..<length path}. P (Suc i)))"
  proof -
    fix P :: "nat \<Rightarrow> bool"
    show "(\<exists>i \<in> {0..<length (c # path)}. P i) = (P 0 \<or> (\<exists>i \<in> {0..<length path}. P (Suc i)))"
    proof
      assume "\<exists>i \<in> {0..<length (c # path)}. P i"
      then obtain i where i: "i < Suc (length path)" "P i" by auto
      show "P 0 \<or> (\<exists>i \<in> {0..<length path}. P (Suc i))"
      proof (cases i)
        case 0
        with i show ?thesis by simp
      next
        case (Suc j)
        with i show ?thesis by auto
      qed
    next
      assume "P 0 \<or> (\<exists>i \<in> {0..<length path}. P (Suc i))"
      then show "\<exists>i \<in> {0..<length (c # path)}. P i" by auto
    qed
  qed
  show ?case
    by (subst split) (auto simp: Cons.IH)
qed

lemma ruleStep_applies:
  "ruleStep path isDir matched r = (if ruleApplies path isDir r then \<not> negative r else matched)"
  by (auto simp: ruleStep_def ruleApplies_def Let_def suffixMatch_iff)

lemma foldl_ruleStep:
  "foldl (ruleStep path isDir) m rs =
    (case filter (ruleApplies path isDir) rs of [] \<Rightarrow> m | r # ms \<Rightarrow> \<not> negative (last (r # ms)))"
proof (induction rs rule: rev_induct)
  case Nil
  then show ?case by simp
next
  case (snoc r rs)
  then show ?case
    by (auto simp: ruleStep_applies split: list.splits)
qed

text \<open>
  Claim C4.  For every rule list and candidate path, \<open>match\<close> returns the verdict of
  the last rule, in declaration order, that applies to the path.  The lines \<open>*.tmp\<close>
  and \<open>!keep.tmp\<close> parse to an excluding and a re-including rule; with them the file
  \<open>keep.tmp\<close> is not excluded and the file \<open>drop.tmp\<close> is excluded.
\<close>

theorem last_matching_rule_decides:
  "match (Some g) path isDir = lastVerdict path isDir (rules g)
   \<and> parseRules [''*.tmp'', ''!keep.tmp'']
       = [\<lparr>pattern = ''*.tmp'', negative = False, anchored = False, dirOnly = False, hasSlash = False\<rparr>,
          \<lparr>pattern = ''keep.tmp'', negative = True, anchored = False, dirOnly = False, hasSlash = False\<rparr>]
   \<and> match (Some \<lparr>root = rt, rules = parseRules [''*.tmp'', ''!keep.tmp'']\<rparr>) ''keep.tmp'' False = False
   \<and> match (Some \<lparr>root = rt, rules = parseRules [''*.tmp'', ''!keep.tmp'']\<rparr>) ''drop.tmp'' False = True"
proof (intro conjI)
  show "match (Some g) path isDir = lastVerdict path isDir (rules g)"
    by (simp add: match_def lastVerdict_def normalizePath_id foldl_ruleStep)
  show p: "parseRules [''*.tmp'', ''!keep.tmp'']
       = [\<lparr>pattern = ''*.tmp'', negative = False, anchored = False, dirOnly = False, hasSlash = False\<rparr>,
          \<lparr>pattern = ''keep.tmp'', negative = True, anchored = False, dirOnly = False, hasSlash = False\<rparr>]"
    by code_simp
  have b1: "Base ''keep.tmp'' = ''keep.tmp''" by code_simp
  have b2: "Base ''drop.tmp'' = ''drop.tmp''" by code_simp
  have m1: "matchPattern ''*.tmp'' ''keep.tmp''" by code_simp
  have m2: "matchPattern ''keep.tmp'' ''keep.tmp''" by code_simp
  have m3: "matchPattern ''*.tmp'' ''drop.tmp''" by code_simp
  have m4: "\<not> matchPattern ''keep.tmp'' ''drop.tmp''" by code_simp
  show "match (Some \<lparr>root = rt, rules = parseRules [''*.tmp'', ''!keep.tmp'']\<rparr>) ''keep.tmp'' False = False"
    by (simp add: p match_def normalizePath_id ruleStep_def b1 m1 m2)
  show "match (Some \<lparr>root = rt, rules = parseRules [''*.tmp'', ''!keep.tmp'']\<rparr>) ''drop.tmp'' False = True"
    by (simp add: p match_def normalizePath_id ruleStep_def b2 m3 m4)
qed

section \<open>Directory rules\<close>











section \<open>Malformed patterns\<close>

lemma parseRanges_open:
  assumes "\<not> (chunk \<noteq> [] \<and> hd chunk = CHR '']'' \<and> 0 < nrange)"
  shows "parseRanges r m nrange chunk =
    (case getEsc chunk of
         Inl e \<Rightarrow> Inl e
       | Inr (lo, chunk1) \<Rightarrow>
           if hd chunk1 = CHR ''-'' then
             (case getEsc (tl chunk1) of
                Inl e \<Rightarrow> Inl e
              | Inr (hi, chunk2) \<Rightarrow>
                  parseRanges r (if lo \<le> r \<and> r \<le> hi then True else m) (nrange + 1) chunk2)
           else parseRanges r (if lo \<le> r \<and> r \<le> lo then True else m) (nrange + 1) chunk1)"
  by (subst parseRanges.simps) (use assms in auto)

lemma parseRanges_close:
  assumes "chunk \<noteq> [] \<and> hd chunk = CHR '']'' \<and> 0 < nrange"
  shows "parseRanges r m nrange chunk = Inr (m, tl chunk)"
  by (subst parseRanges.simps) (use assms in simp)

lemma parseRanges_indep:
  "map_sum id snd (parseRanges r m n c) = map_sum id snd (parseRanges r' m' n c)"
proof (induction r m n c arbitrary: m' rule: parseRanges.induct)
  case (1 r match nrange chunk)
  show ?case
  proof (cases "chunk \<noteq> [] \<and> hd chunk = CHR '']'' \<and> 0 < nrange")
    case True
    show ?thesis
      by (simp add: parseRanges_close [OF True])
  next
    case False
    show ?thesis
    proof (cases "getEsc chunk")
      case (Inl e)
      show ?thesis by (simp add: parseRanges_open [OF False] Inl)
    next
      case (Inr a)
      then obtain lo chunk1 where g1: "getEsc chunk = Inr (lo, chunk1)" by (cases a) auto
      show ?thesis
      proof (cases "hd chunk1 = CHR ''-''")
        case True
        show ?thesis
        proof (cases "getEsc (tl chunk1)")
          case (Inl e)
          show ?thesis by (simp add: parseRanges_open [OF False] g1 True Inl)
        next
          case (Inr b)
          then obtain hi chunk2 where g2: "getEsc (tl chunk1) = Inr (hi, chunk2)" by (cases b) auto
          show ?thesis
            using "1.IH"(1) [OF False g1 refl True g2 refl]
            by (simp add: parseRanges_open [OF False] g1 True g2)
        qed
      next
        case F: False
        show ?thesis
          using "1.IH"(2) [OF False g1 refl F]
          by (simp add: parseRanges_open [OF False] g1 F)
      qed
    qed
  qed
qed


lemma parseRanges_indep_Inl:
  assumes "parseRanges r m n c = Inl e"
  shows "\<exists>e'. parseRanges r' m' n c = Inl e'"
proof (cases "parseRanges r' m' n c")
  case (Inl a)
  then show ?thesis by simp
next
  case (Inr b)
  with parseRanges_indep [of r m n c r' m'] assms show ?thesis by simp
qed

lemma parseRanges_indep_Inr:
  assumes "parseRanges r m n c = Inr (x, c1)"
  shows "\<exists>x'. parseRanges r' m' n c = Inr (x', c1)"
proof (cases "parseRanges r' m' n c")
  case (Inl a)
  with parseRanges_indep [of r m n c r' m'] assms show ?thesis by simp
next
  case (Inr b)
  with parseRanges_indep [of r m n c r' m'] assms show ?thesis by (cases b) simp
qed

lemma matchClass_alt:
  "matchClass f c s =
    (case parseRanges (if f then 0 else fst (DecodeRuneInString s)) False 0
            (if tl c \<noteq> [] \<and> hd (tl c) = CHR ''^'' then tl (tl c) else tl c) of
       Inl e \<Rightarrow> Inl e
     | Inr (m, c') \<Rightarrow>
         Inr (if m = (tl c \<noteq> [] \<and> hd (tl c) = CHR ''^'') then True else f, c',
              if f then s else drop (snd (DecodeRuneInString s)) s))"
  by (cases f) (auto simp: matchClass_def Let_def split: sum.splits)

lemma matchClass_indep_Inl:
  assumes "matchClass f c s = Inl e"
  shows "\<exists>e'. matchClass f' c s' = Inl e'"
proof -
  define c0 where "c0 = (if tl c \<noteq> [] \<and> hd (tl c) = CHR ''^'' then tl (tl c) else tl c)"
  define r where "r = (if f then 0 else fst (DecodeRuneInString s))"
  define r' where "r' = (if f' then 0 else fst (DecodeRuneInString s'))"
  from assms have "parseRanges r False 0 c0 = Inl e"
    unfolding matchClass_alt c0_def [symmetric] r_def [symmetric]
    by (cases "parseRanges r False 0 c0") (auto split: prod.splits)
  then obtain e' where "parseRanges r' False 0 c0 = Inl e'"
    using parseRanges_indep_Inl by blast
  then show ?thesis
    unfolding matchClass_alt [of f'] c0_def [symmetric] r'_def [symmetric] by simp
qed

lemma matchClass_indep_Inr:
  assumes "matchClass f c s = Inr (f1, c1, s1)"
  shows "\<exists>f1' s1'. matchClass f' c s' = Inr (f1', c1, s1')"
proof -
  define c0 where "c0 = (if tl c \<noteq> [] \<and> hd (tl c) = CHR ''^'' then tl (tl c) else tl c)"
  define r where "r = (if f then 0 else fst (DecodeRuneInString s))"
  define r' where "r' = (if f' then 0 else fst (DecodeRuneInString s'))"
  from assms obtain x where "parseRanges r False 0 c0 = Inr (x, c1)"
    unfolding matchClass_alt c0_def [symmetric] r_def [symmetric]
    by (cases "parseRanges r False 0 c0") (auto split: prod.splits)
  then obtain x' where "parseRanges r' False 0 c0 = Inr (x', c1)"
    using parseRanges_indep_Inr by blast
  then show ?thesis
    unfolding matchClass_alt [of f'] c0_def [symmetric] r'_def [symmetric] by simp
qed

lemma mcl_nil: "matchChunk_loop f [] s = (if f then Inr None else Inr (Some s))"
  by (subst matchChunk_loop.simps) simp

lemma mcl_class:
  "c \<noteq> [] \<Longrightarrow> hd c = CHR ''['' \<Longrightarrow>
   matchChunk_loop f c s =
     (case matchClass (if \<not> f \<and> s = [] then True else f) c s of
        Inl e \<Rightarrow> Inl e
      | Inr (f2, c2, s2) \<Rightarrow> matchChunk_loop f2 c2 s2)"
  by (subst matchChunk_loop.simps) (simp add: Let_def)

lemma mcl_any:
  "c \<noteq> [] \<Longrightarrow> hd c = CHR ''?'' \<Longrightarrow>
   \<exists>f' s'. matchChunk_loop f c s = matchChunk_loop f' (tl c) s'"
  by (subst matchChunk_loop.simps) (auto simp: Let_def)

lemma mcl_lit:
  "c \<noteq> [] \<Longrightarrow> hd c \<noteq> CHR ''['' \<Longrightarrow> hd c \<noteq> CHR ''?'' \<Longrightarrow>
   c' = (if hd c = CHR 0x5C then tl c else c) \<Longrightarrow>
   (c' = [] \<and> matchChunk_loop f c s = Inl ErrBadPattern)
   \<or> (c' \<noteq> [] \<and> (\<exists>f' s'. matchChunk_loop f c s = matchChunk_loop f' (tl c') s'))"
  by (subst matchChunk_loop.simps, subst matchChunk_loop.simps) (auto simp: Let_def)

lemma matchChunk_loop_isl:
  "isl (matchChunk_loop f c s) = isl (matchChunk_loop f' c s')"
proof (induction "length c" arbitrary: f c s f' s' rule: less_induct)
  case less
  show ?case
  proof (cases "c = []")
    case True
    then show ?thesis by (simp add: mcl_nil)
  next
    case False
    consider (cls) "hd c = CHR ''[''" | (any) "hd c = CHR ''?''"
      | (lit) "hd c \<noteq> CHR ''[''" "hd c \<noteq> CHR ''?''" by blast
    then show ?thesis
    proof cases
      case cls
      define g where "g = (if \<not> f \<and> s = [] then True else f)"
      define g' where "g' = (if \<not> f' \<and> s' = [] then True else f')"
      show ?thesis
      proof (cases "matchClass g c s")
        case (Inl e)
        then obtain e' where "matchClass g' c s' = Inl e'"
          using matchClass_indep_Inl by blast
        with Inl show ?thesis
          by (simp add: mcl_class [OF False cls] g_def [symmetric] g'_def [symmetric])
      next
        case (Inr b)
        obtain f1 c1 s1 where b: "b = (f1, c1, s1)" by (cases b) auto
        with Inr have m: "matchClass g c s = Inr (f1, c1, s1)" by simp
        then obtain f1' s1' where m': "matchClass g' c s' = Inr (f1', c1, s1')"
          using matchClass_indep_Inr by blast
        have "length c1 < length c" using m by (rule matchClass_shorter)
        then have "isl (matchChunk_loop f1 c1 s1) = isl (matchChunk_loop f1' c1 s1')"
          by (rule less)
        with m m' show ?thesis
          by (simp add: mcl_class [OF False cls] g_def [symmetric] g'_def [symmetric])
      qed
    next
      case any
      obtain g t where a: "matchChunk_loop f c s = matchChunk_loop g (tl c) t"
        using mcl_any [OF False any] by blast
      obtain g' t' where a': "matchChunk_loop f' c s' = matchChunk_loop g' (tl c) t'"
        using mcl_any [OF False any] by blast
      have "length (tl c) < length c" using False by (cases c) auto
      then have "isl (matchChunk_loop g (tl c) t) = isl (matchChunk_loop g' (tl c) t')"
        by (rule less)
      with a a' show ?thesis by simp
    next
      case lit
      define c' where "c' = (if hd c = CHR 0x5C then tl c else c)"
      show ?thesis
      proof (cases "c' = []")
        case True
        with mcl_lit [OF False lit c'_def, of f s] mcl_lit [OF False lit c'_def, of f' s']
        show ?thesis by auto
      next
        case F: False
        with mcl_lit [OF False lit c'_def, of f s]
        obtain g t where a: "matchChunk_loop f c s = matchChunk_loop g (tl c') t" by auto
        from F mcl_lit [OF False lit c'_def, of f' s']
        obtain g' t' where a': "matchChunk_loop f' c s' = matchChunk_loop g' (tl c') t'" by auto
        have "length (tl c') < length c" using False F by (cases c; cases c') (auto simp: c'_def split: if_splits)
        then have "isl (matchChunk_loop g (tl c') t) = isl (matchChunk_loop g' (tl c') t')"
          by (rule less)
        with a a' show ?thesis by simp
      qed
    qed
  qed
qed

lemma matchChunk_isl: "isl (matchChunk c s) = isl (matchChunk c [])"
  unfolding matchChunk_def by (rule matchChunk_loop_isl)

lemma star_loop_Failed:
  "star_loop chunk l name = Failed e \<Longrightarrow> isl (matchChunk chunk [])"
proof (induction name)
  case Nil
  then show ?case by simp
next
  case (Cons c name)
  show ?case
  proof (cases "matchChunk chunk name")
    case (Inl e')
    then have "isl (matchChunk chunk name)" by simp
    then show ?thesis by (simp add: matchChunk_isl [of chunk name])
  next
    case (Inr m)
    with Cons show ?thesis by (auto split: if_splits option.splits)
  qed
qed

lemma scanChunk_loop_empty:
  "scanChunk_loop False p = ([], r) \<Longrightarrow> p = [] \<or> hd p = CHR ''*''"
  by (cases p) (auto split: if_splits list.splits prod.splits)

lemma scanChunk_empty_chunk:
  assumes "scanChunk p = (star, [], rest)"
  shows "rest = []"
proof -
  define q where "q = dropWhile (\<lambda>c. c = CHR ''*'') p"
  from assms have sc: "scanChunk_loop False q = ([], rest)"
    by (auto simp: scanChunk_def q_def Let_def split: prod.splits)
  have "q = [] \<or> hd q \<noteq> CHR ''*''"
    unfolding q_def by (metis (mono_tags, lifting) hd_dropWhile)
  with scanChunk_loop_empty [OF sc] have "q = []" by auto
  with sc show ?thesis by simp
qed

lemma check_rest_nil: "check_rest [] = Inr False"
  by (subst check_rest.simps) simp

lemma check_rest_cons:
  "p \<noteq> [] \<Longrightarrow> scanChunk p = (star, chunk, rest) \<Longrightarrow>
   check_rest p = (case matchChunk chunk [] of Inl e \<Rightarrow> Inl e | Inr r \<Rightarrow> check_rest rest)"
  by (subst check_rest.simps) simp

lemma Match_nil: "Match [] name = Inr (name = [])"
  by (subst Match.simps) simp

lemma Match_cons:
  "p \<noteq> [] \<Longrightarrow> scanChunk p = (star, chunk, rest) \<Longrightarrow>
   Match p name =
     (if star \<and> chunk = [] then Inr (CHR ''/'' \<notin> set name)
       else
         case matchChunk chunk name of
           Inl e \<Rightarrow> Inl e
         | Inr m \<Rightarrow>
             if (case m of Some t \<Rightarrow> t = [] \<or> rest \<noteq> [] | None \<Rightarrow> False)
             then Match rest (the m)
             else
               (case (if star then star_loop chunk (rest = []) name else NotFound) of
                  Found t \<Rightarrow> Match rest t
                | Failed e \<Rightarrow> Inl e
                | NotFound \<Rightarrow> check_rest rest))"
  by (subst Match.simps) simp

lemma Match_isl: "isl (Match p name) = isl (check_rest p)"
proof (induction "length p" arbitrary: p name rule: less_induct)
  case less
  show ?case
  proof (cases "p = []")
    case True
    then show ?thesis by (simp add: Match_nil check_rest_nil)
  next
    case False
    obtain star chunk rest where sc: "scanChunk p = (star, chunk, rest)"
      by (cases "scanChunk p") auto
    have shorter: "length rest < length p" using sc False by (rule scanChunk_shorter)
    have IH: "\<And>t. isl (Match rest t) = isl (check_rest rest)"
      using shorter by (rule less)
    show ?thesis
    proof (cases "star \<and> chunk = []")
      case True
      with sc have "rest = []" using scanChunk_empty_chunk by blast
      with True show ?thesis
        by (simp add: Match_cons [OF False sc] check_rest_cons [OF False sc] check_rest_nil
                      matchChunk_def mcl_nil)
    next
      case nonTrivial: False
      show ?thesis
      proof (cases "matchChunk chunk name")
        case (Inl e)
        then have "isl (matchChunk chunk [])"
          using matchChunk_isl [of chunk name] by simp
        then obtain e' where "matchChunk chunk [] = Inl e'"
          by (cases "matchChunk chunk []") auto
        with Inl nonTrivial show ?thesis
          by (auto simp: Match_cons [OF False sc] check_rest_cons [OF False sc])
      next
        case (Inr m)
        then have ok: "\<not> isl (matchChunk chunk [])"
          using matchChunk_isl [of chunk name] by simp
        then obtain m0 where m0: "matchChunk chunk [] = Inr m0"
          by (cases "matchChunk chunk []") auto
        have cr: "check_rest p = check_rest rest"
          by (simp add: check_rest_cons [OF False sc] m0)
        show ?thesis
        proof (cases "case m of Some t \<Rightarrow> t = [] \<or> rest \<noteq> [] | None \<Rightarrow> False")
          case True
          with Inr nonTrivial show ?thesis
            by (auto simp: Match_cons [OF False sc] cr IH)
        next
          case notAccepted: False
          show ?thesis
          proof (cases "if star then star_loop chunk (rest = []) name else NotFound")
            case (Found t)
            with Inr nonTrivial notAccepted show ?thesis
              by (auto simp: Match_cons [OF False sc] cr IH)
          next
            case (Failed e)
            then have "isl (matchChunk chunk [])"
              by (auto split: if_splits dest: star_loop_Failed)
            with ok show ?thesis by simp
          next
            case NotFound
            with Inr nonTrivial notAccepted show ?thesis
              by (auto simp: Match_cons [OF False sc] cr)
          qed
        qed
      qed
    qed
  qed
qed


text \<open>
  Claim C6.  For every malformed pattern and every candidate string, \<open>matchPattern\<close>
  is the equality of the pattern and the candidate: \<open>path.Match\<close> reports the bad
  pattern whatever the candidate is, and \<open>matchPattern\<close> answers the comparison instead
  of an error.
\<close>

theorem malformed_pattern_means_equality:
  assumes "malformed pat"
  shows "matchPattern pat name = (pat = name)"
proof -
  from assms have "isl (Match pat name)" by (simp add: malformed_def Match_isl)
  then obtain e where "Match pat name = Inl e" by (cases "Match pat name") auto
  then show ?thesis by (simp add: matchPattern_def)
qed


theorem malformed_pattern_means_equality_witness:
  "malformed ''['' \<and> matchPattern ''['' ''x'' = (''['' = ''x'')"
proof -
  have m: "malformed ''[''" by code_simp
  from malformed_pattern_means_equality [OF m, of "''x''"] m show ?thesis by simp
qed

section \<open>The matcher finds the first keyword\<close>

lemma upperChar_word: "between (CHR ''A'') (CHR ''Z'') (upperChar c) \<Longrightarrow> isWordChar c"
  by (cases "between (CHR ''a'') (CHR ''z'') c") (auto simp: upperChar_def isWordChar_def)

lemma keyword_letters:
  "kw \<in> set keywordList \<Longrightarrow> kw \<noteq> [] \<and> (\<forall>c \<in> set kw. between (CHR ''A'') (CHR ''Z'') c)"
  by (auto simp: keywordList_def between_def)

lemma keyword_head_unique:
  "kw \<in> set keywordList \<Longrightarrow> kw' \<in> set keywordList \<Longrightarrow> hd kw = hd kw' \<Longrightarrow> kw = kw'"
  by (auto simp: keywordList_def)

lemma ToUpper_keyword_word:
  assumes "kw \<in> set keywordList" "ToUpper m = kw"
  shows "m \<noteq> [] \<and> (\<forall>c \<in> set m. isWordChar c) \<and> upperChar (hd m) = hd kw"
proof -
  from assms keyword_letters [OF assms(1)] have ne: "m \<noteq> []" by (auto simp: ToUpper_def)
  have "\<forall>c \<in> set m. isWordChar c"
  proof
    fix c assume "c \<in> set m"
    then have "upperChar c \<in> set kw" using assms(2) by (auto simp: ToUpper_def)
    with keyword_letters [OF assms(1)] show "isWordChar c" by (auto intro: upperChar_word)
  qed
  moreover from ne assms(2) have "upperChar (hd m) = hd kw"
    by (cases m) (auto simp: ToUpper_def)
  ultimately show ?thesis using ne by simp
qed

lemma tryAlternatives_filter:
  "tryAlternatives kws text =
    (case filter (startsWith text) kws of [] \<Rightarrow> None | kw # _ \<Rightarrow> Some (submatches text kw))"
  by (induction kws) (auto simp: startsWith_def submatches_def Let_def)

lemma startsWith_unique:
  assumes "kw \<in> set keywordList" "kw' \<in> set keywordList" "startsWith text kw" "startsWith text kw'"
  shows "kw = kw'"
proof -
  from assms(1,3) have a: "take (length kw) text \<noteq> []" "upperChar (hd (take (length kw) text)) = hd kw"
    using ToUpper_keyword_word [of kw "take (length kw) text"] by (auto simp: startsWith_def)
  from assms(2,4) have b: "take (length kw') text \<noteq> []" "upperChar (hd (take (length kw') text)) = hd kw'"
    using ToUpper_keyword_word [of kw' "take (length kw') text"] by (auto simp: startsWith_def)
  from a have "hd (take (length kw) text) = hd text" by (intro hd_take) auto
  moreover from b have "hd (take (length kw') text) = hd text" by (intro hd_take) auto
  ultimately have "hd kw = hd kw'" using a b by simp
  with assms(1,2) show ?thesis by (rule keyword_head_unique)
qed

lemma tryAlternatives_Some:
  assumes "kw \<in> set keywordList" "startsWith text kw"
  shows "tryAlternatives keywordList text = Some (submatches text kw)"
proof -
  from assms have "kw \<in> set (filter (startsWith text) keywordList)" by simp
  then obtain k ks where f: "filter (startsWith text) keywordList = k # ks"
    by (cases "filter (startsWith text) keywordList") auto
  then have "k \<in> set (filter (startsWith text) keywordList)" by simp
  then have "k \<in> set keywordList" "startsWith text k" by auto
  with assms have "k = kw" using startsWith_unique by blast
  with f show ?thesis by (simp add: tryAlternatives_filter)
qed

lemma tryAlternatives_None:
  assumes "\<forall>kw \<in> set keywordList. \<not> startsWith text kw"
  shows "tryAlternatives keywordList text = None"
proof -
  from assms have "filter (startsWith text) keywordList = []" by (simp add: filter_empty_conv)
  then show ?thesis by (simp add: tryAlternatives_filter)
qed

lemma headOf_drop: "headOf (drop n xs) = (if n < length xs then Some (xs ! n) else None)"
proof (cases "n < length xs")
  case True
  then have "drop n xs = xs ! n # drop (Suc n) xs" by (simp add: Cons_nth_drop_Suc)
  with True show ?thesis by (simp add: headOf_def)
next
  case False
  then show ?thesis by (simp add: headOf_def)
qed

lemma headOf_Some_hd: "xs \<noteq> [] \<Longrightarrow> headOf xs = Some (hd xs)"
  by (cases xs) (auto simp: headOf_def)

lemma keywordAt_iff:
  assumes "i \<le> length line"
  shows "keywordAt line i kw \<longleftrightarrow>
    kw \<in> set keywordList \<and> wordBoundary (charBefore line i) (headOf (drop i line))
    \<and> startsWith (drop i line) kw"
proof (cases "kw \<in> set keywordList \<and> i + length kw \<le> length line
              \<and> ToUpper (take (length kw) (drop i line)) = kw")
  case False
  have "startsWith (drop i line) kw \<Longrightarrow>
        i + length kw \<le> length line \<and> ToUpper (take (length kw) (drop i line)) = kw"
    using assms by (auto simp: startsWith_def)
  with False have "\<not> (kw \<in> set keywordList \<and> startsWith (drop i line) kw)" by blast
  moreover from False have "\<not> keywordAt line i kw" by (auto simp: keywordAt_def)
  ultimately show ?thesis by blast
next
  case True
  define m1 where "m1 = take (length kw) (drop i line)"
  from True have kw: "kw \<in> set keywordList" and len: "i + length kw \<le> length line"
    and up: "ToUpper m1 = kw" by (auto simp: m1_def)
  from ToUpper_keyword_word [OF kw up] have m1: "m1 \<noteq> []" "\<forall>c \<in> set m1. isWordChar c" by auto
  then have w: "isWordChar (hd m1)" "isWordChar (last m1)" by auto
  from m1 have ne: "drop i line \<noteq> []" by (auto simp: m1_def)
  from m1 have "hd m1 = hd (drop i line)" unfolding m1_def by (intro hd_take) auto
  with w ne have b1: "wordBoundary (charBefore line i) (headOf (drop i line))
      = (i = 0 \<or> \<not> isWordChar (line ! (i - 1)))"
    by (auto simp: headOf_Some_hd wordBoundary_def charBefore_def)
  have "drop (length kw) (drop i line) = drop (i + length kw) line" by (simp add: add.commute)
  with w len have b2: "wordBoundary (Some (last m1)) (headOf (drop (length kw) (drop i line)))
      = (i + length kw = length line \<or> \<not> isWordChar (line ! (i + length kw)))"
    by (auto simp: headOf_drop wordBoundary_def)
  from True b1 b2 len show ?thesis
    by (auto simp: keywordAt_def startsWith_def m1_def)
qed

lemma matchHere_Some:
  assumes "i \<le> length line" "keywordAt line i kw"
  shows "matchHere (charBefore line i) (drop i line) = Some (submatches (drop i line) kw)"
  using assms keywordAt_iff [OF assms(1), of kw]
  by (simp add: matchHere_def tryAlternatives_Some)

lemma matchHere_None:
  assumes "i \<le> length line" "\<forall>kw. \<not> keywordAt line i kw"
  shows "matchHere (charBefore line i) (drop i line) = None"
proof (cases "wordBoundary (charBefore line i) (headOf (drop i line))")
  case False
  then show ?thesis by (simp add: matchHere_def)
next
  case True
  with assms(2) keywordAt_iff [OF assms(1)]
  have "\<forall>kw \<in> set keywordList. \<not> startsWith (drop i line) kw" by blast
  then show ?thesis by (simp add: matchHere_def tryAlternatives_None)
qed

lemma keywordAt_bound: "keywordAt line j kw \<Longrightarrow> j < length line"
proof -
  assume a: "keywordAt line j kw"
  then have "kw \<noteq> []" using keyword_letters [of kw] by (simp add: keywordAt_def)
  moreover from a have "j + length kw \<le> length line" by (simp add: keywordAt_def)
  ultimately show ?thesis by (cases kw) auto
qed

lemma findFrom_first:
  assumes "i \<le> length line"
  shows "(\<exists>j kw. i \<le> j \<and> keywordAt line j kw
            \<and> (\<forall>j' k. i \<le> j' \<and> j' < j \<longrightarrow> \<not> keywordAt line j' k)
            \<and> findFrom (charBefore line i) (drop i line) = Some (submatches (drop j line) kw))
       \<or> ((\<forall>j k. i \<le> j \<longrightarrow> \<not> keywordAt line j k)
            \<and> findFrom (charBefore line i) (drop i line) = None)"
  using assms
proof (induction "length line - i" arbitrary: i)
  case 0
  then have i: "i = length line" by simp
  have none: "\<forall>j k. i \<le> j \<longrightarrow> \<not> keywordAt line j k"
    using i keywordAt_bound by fastforce
  then have "matchHere (charBefore line i) (drop i line) = None"
    using matchHere_None [of i line] i by simp
  with i none show ?case by simp
next
  case (Suc n)
  then have lt: "i < length line" by simp
  then have d: "drop i line = line ! i # drop (Suc i) line" by (simp add: Cons_nth_drop_Suc)
  have cb: "charBefore line (Suc i) = Some (line ! i)" by (simp add: charBefore_def)
  show ?case
  proof (cases "\<exists>kw. keywordAt line i kw")
    case True
    then obtain kw where k: "keywordAt line i kw" by blast
    from matchHere_Some [OF Suc.prems k]
    have "findFrom (charBefore line i) (drop i line) = Some (submatches (drop i line) kw)"
      by (simp add: d)
    with k show ?thesis by (intro disjI1 exI [of _ i] exI [of _ kw]) auto
  next
    case False
    then have nk: "\<forall>kw. \<not> keywordAt line i kw" by simp
    from matchHere_None [OF Suc.prems nk]
    have ff: "findFrom (charBefore line i) (drop i line)
        = findFrom (charBefore line (Suc i)) (drop (Suc i) line)"
      by (simp add: d cb)
    have n: "n = length line - Suc i" using Suc.hyps(2) by simp
    have le: "Suc i \<le> length line" using lt by simp
    from Suc.hyps(1) [OF n le] consider
      (found) j kw where "Suc i \<le> j" "keywordAt line j kw"
            "\<forall>j' k. Suc i \<le> j' \<and> j' < j \<longrightarrow> \<not> keywordAt line j' k"
            "findFrom (charBefore line (Suc i)) (drop (Suc i) line) = Some (submatches (drop j line) kw)"
      | (none) "\<forall>j k. Suc i \<le> j \<longrightarrow> \<not> keywordAt line j k"
            "findFrom (charBefore line (Suc i)) (drop (Suc i) line) = None"
      by (elim disjE exE conjE) auto
    then show ?thesis
    proof cases
      case found
      have "\<forall>j' k. i \<le> j' \<and> j' < j \<longrightarrow> \<not> keywordAt line j' k"
      proof (intro allI impI)
        fix j' k assume a: "i \<le> j' \<and> j' < j"
        show "\<not> keywordAt line j' k"
        proof (cases "j' = i")
          case True
          with nk show ?thesis by simp
        next
          case False
          with a have "Suc i \<le> j'" by simp
          with a found(3) show ?thesis by blast
        qed
      qed
      with found ff show ?thesis
        by (intro disjI1 exI [of _ j] exI [of _ kw]) auto
    next
      case none
      have "\<forall>j k. i \<le> j \<longrightarrow> \<not> keywordAt line j k"
      proof (intro allI impI)
        fix j k assume a: "i \<le> j"
        show "\<not> keywordAt line j k"
        proof (cases "j = i")
          case True
          with nk show ?thesis by simp
        next
          case False
          with a have "Suc i \<le> j" by simp
          with none(1) show ?thesis by blast
        qed
      qed
      with none ff show ?thesis by simp
    qed
  qed
qed

lemma TrimSpace_nil: "TrimSpace [] = []"
  by (simp add: TrimSpace_def TrimLeftSpace.simps TrimRightSpace.simps)

lemma takeWhile_no_newline:
  "CHR 0x0A \<notin> set xs \<Longrightarrow> takeWhile (\<lambda>c. c \<noteq> CHR 0x0A) xs = xs"
  by (induction xs) auto

lemma submatches_line:
  assumes "CHR 0x0A \<notin> set line"
  shows "snd (submatches (drop j line) kw) = afterKeyword line j kw"
proof -
  define rest where "rest = drop (j + length kw) line"
  have r: "drop (length kw) (drop j line) = rest" by (simp add: rest_def add.commute)
  have "set rest \<subseteq> set line" unfolding rest_def by (rule set_drop_subset)
  moreover have "set (tl rest) \<subseteq> set rest" by (cases rest) auto
  ultimately have nl: "CHR 0x0A \<notin> set rest" "CHR 0x0A \<notin> set (tl rest)" using assms by auto
  have "(headOf rest = Some (CHR '':'')) = (rest \<noteq> [] \<and> hd rest = CHR '':'')"
    by (cases rest) (auto simp: headOf_def)
  moreover have "snd (submatches (drop j line) kw)
      = takeWhile (\<lambda>c. c \<noteq> CHR 0x0A) (if headOf rest = Some (CHR '':'') then tl rest else rest)"
    by (simp only: submatches_def snd_conv r)
  moreover have "afterKeyword line j kw = (if rest \<noteq> [] \<and> hd rest = CHR '':'' then tl rest else rest)"
    by (simp add: afterKeyword_def rest_def Let_def)
  ultimately show ?thesis using nl by (simp add: takeWhile_no_newline)
qed

lemma lineTodo_first:
  "(\<exists>j kw. keywordAt line j kw
        \<and> (\<forall>j' k. j' < j \<longrightarrow> \<not> keywordAt line j' k)
        \<and> FindStringSubmatch line = Some (submatches (drop j line) kw))
   \<or> ((\<forall>j k. \<not> keywordAt line j k) \<and> FindStringSubmatch line = None)"
  using findFrom_first [of 0 line]
  by (simp add: FindStringSubmatch_def charBefore_def)

text \<open>
  Claim C3.  Let \<open>line\<close> be a line of text (it holds no line feed).  If one of the four
  keywords occurs in it as a whole word, in any case, the matcher produces a record:
  that of the leftmost such occurrence, with the keyword in capitals as its tag and,
  as its text, the characters after the keyword and its optional colon, trimmed.  If
  no keyword occurs as a whole word the matcher produces no record.  A line that is
  exactly a keyword yields a record with the empty text.
\<close>

theorem matcher_finds_keyword:
  assumes "CHR 0x0A \<notin> set line"
  shows "(keywordAt line i kw \<longrightarrow>
            (\<exists>j kw'. j \<le> i \<and> keywordAt line j kw'
               \<and> (\<forall>j' k. j' < j \<longrightarrow> \<not> keywordAt line j' k)
               \<and> lineTodo path n line
                   = Some \<lparr>File = path, Line = n, Tag = kw',
                           Text = TrimSpace (afterKeyword line j kw')\<rparr>))
     \<and> ((\<forall>j k. \<not> keywordAt line j k) \<longrightarrow> lineTodo path n line = None)
     \<and> (ToUpper line \<in> set keywordList \<longrightarrow>
           lineTodo path n line = Some \<lparr>File = path, Line = n, Tag = ToUpper line, Text = []\<rparr>)"
proof (intro conjI impI)
  assume k: "keywordAt line i kw"
  from lineTodo_first [of line] k obtain j kw' where
    j: "keywordAt line j kw'" "\<forall>j' k. j' < j \<longrightarrow> \<not> keywordAt line j' k"
       "FindStringSubmatch line = Some (submatches (drop j line) kw')"
    by blast
  from j(2) k have "j \<le> i" by (meson not_le_imp_less)
  moreover from j(1) have "ToUpper (fst (submatches (drop j line) kw')) = kw'"
    by (simp add: keywordAt_def submatches_def)
  moreover note submatches_line [OF assms, of j kw']
  ultimately show "\<exists>j kw'. j \<le> i \<and> keywordAt line j kw'
               \<and> (\<forall>j' k. j' < j \<longrightarrow> \<not> keywordAt line j' k)
               \<and> lineTodo path n line
                   = Some \<lparr>File = path, Line = n, Tag = kw',
                           Text = TrimSpace (afterKeyword line j kw')\<rparr>"
    using j by (intro exI [of _ j] exI [of _ kw']) (auto simp: lineTodo_def split: prod.splits)
next
  assume "\<forall>j k. \<not> keywordAt line j k"
  with lineTodo_first [of line] have "FindStringSubmatch line = None" by blast
  then show "lineTodo path n line = None" by (simp add: lineTodo_def)
next
  assume u: "ToUpper line \<in> set keywordList"
  have len: "length (ToUpper line) = length line" by (simp add: ToUpper_def)
  then have k0: "keywordAt line 0 (ToUpper line)"
    using u by (simp add: keywordAt_def)
  from lineTodo_first [of line] k0 obtain j kw' where
    j: "keywordAt line j kw'" "\<forall>j' k. j' < j \<longrightarrow> \<not> keywordAt line j' k"
       "FindStringSubmatch line = Some (submatches (drop j line) kw')"
    by blast
  from j(2) k0 have j0: "j = 0" by (metis not_gr_zero)
  have "kw' = ToUpper line"
  proof -
    from j(1) j0 have a: "kw' \<in> set keywordList" "startsWith line kw'"
      using keywordAt_iff [of 0 line kw'] by auto
    from k0 have b: "startsWith line (ToUpper line)"
      using keywordAt_iff [of 0 line "ToUpper line"] by auto
    from a(1) u a(2) b show ?thesis by (rule startsWith_unique)
  qed
  with j(3) j0 len show "lineTodo path n line = Some \<lparr>File = path, Line = n, Tag = ToUpper line, Text = []\<rparr>"
    by (simp add: lineTodo_def submatches_def headOf_def TrimSpace_nil)
qed

theorem matcher_finds_keyword_witness:
  "CHR 0x0A \<notin> set ''x = 1 // fixme: later''
   \<and> keywordAt ''x = 1 // fixme: later'' 9 ''FIXME''
   \<and> lineTodo ''a.go'' 7 ''x = 1 // fixme: later''
       = Some \<lparr>File = ''a.go'', Line = 7, Tag = ''FIXME'', Text = ''later''\<rparr>
   \<and> lineTodo ''a.go'' 8 ''//random'' = None
   \<and> lineTodo ''a.go'' 9 ''Todo'' = Some \<lparr>File = ''a.go'', Line = 9, Tag = ''TODO'', Text = []\<rparr>"
proof -
  have nl: "CHR 0x0A \<notin> set ''Todo''" by simp
  have up: "ToUpper ''Todo'' = ''TODO''" by code_simp
  have "ToUpper ''Todo'' \<in> set keywordList" by (simp add: up keywordList_def)
  with matcher_finds_keyword [OF nl, of 0 "''TODO''" "''a.go''" 9]
  have "lineTodo ''a.go'' 9 ''Todo'' = Some \<lparr>File = ''a.go'', Line = 9, Tag = ''TODO'', Text = []\<rparr>"
    by (simp add: up)
  moreover have "keywordAt ''x = 1 // fixme: later'' 9 ''FIXME''" by code_simp
  moreover have "lineTodo ''a.go'' 7 ''x = 1 // fixme: later''
       = Some \<lparr>File = ''a.go'', Line = 7, Tag = ''FIXME'', Text = ''later''\<rparr>" by code_simp
  moreover have "lineTodo ''a.go'' 8 ''//random'' = None" by code_simp
  ultimately show ?thesis by simp
qed

section \<open>Every schedule of the worker pool\<close>

lemma mset_concat_update:
  "i < length ws \<Longrightarrow>
   mset (concat (map f (ws[i := w]))) + mset (f (ws ! i)) = mset (concat (map f ws)) + mset (f w)"
proof (induction ws arbitrary: i)
  case Nil
  then show ?case by simp
next
  case (Cons a ws)
  show ?case
  proof (cases i)
    case 0
    then show ?thesis by simp
  next
    case (Suc k)
    with Cons.prems have "k < length ws" by simp
    from Cons.IH [OF this] Suc show ?thesis by (simp add: ac_simps)
  qed
qed

lemma sum_weight_update:
  "i < length ws \<Longrightarrow>
   sum_list (map weight (ws[i := w])) + weight (ws ! i) = sum_list (map weight ws) + weight w"
proof (induction ws arbitrary: i)
  case Nil
  then show ?case by simp
next
  case (Cons a ws)
  show ?case
  proof (cases i)
    case 0
    then show ?thesis by simp
  next
    case (Suc k)
    with Cons.prems have "k < length ws" by simp
    from Cons.IH [OF this] Suc show ?thesis by simp
  qed
qed

lemma batchOf_scanned:
  "scanFileWithReader (openPath job) (readerOpen fs reader) = (fileTodos, err) \<Longrightarrow>
   batchOf fs reader job =
     (if err = None \<and> 0 < length fileTodos then map (\<lambda>t. t\<lparr>File := rel job\<rparr>) fileTodos else [])"
  by (simp add: batchOf_def worker_def)

lemma step_account: "step cap fs reader s s' \<Longrightarrow> account fs reader s' = account fs reader s"
proof (induction rule: step.induct)
  case (send s job jobs)
  then show ?case by (simp add: account_def)
next
  case (close s)
  then show ?case by (simp add: account_def)
next
  case (receive i s job q)
  from mset_concat_update [OF receive(1), of "held fs reader" "Scanning job"] receive(2)
  have "mset (concat (map (held fs reader) ((workers s)[i := Scanning job])))
        = mset (concat (map (held fs reader) (workers s))) + mset (batchOf fs reader job)" by simp
  with receive show ?case by (simp add: account_def)
next
  case (scan i s job fileTodos err)
  from mset_concat_update [OF scan(1), of "held fs reader"
         "Holding (map (\<lambda>t. t\<lparr>File := rel job\<rparr>) fileTodos)"] scan(2) batchOf_scanned [OF scan(3)] scan(4)
  have "mset (concat (map (held fs reader)
           ((workers s)[i := Holding (map (\<lambda>t. t\<lparr>File := rel job\<rparr>) fileTodos)])))
        = mset (concat (map (held fs reader) (workers s)))" by simp
  then show ?case by (simp add: account_def)
next
  case (skip i s job fileTodos err)
  from mset_concat_update [OF skip(1), of "held fs reader" Receiving] skip(2)
       batchOf_scanned [OF skip(3)] skip(4)
  have "mset (concat (map (held fs reader) ((workers s)[i := Receiving])))
        = mset (concat (map (held fs reader) (workers s)))" by auto
  then show ?case by (simp add: account_def)
next
  case (merge i s fileTodos)
  from mset_concat_update [OF merge(1), of "held fs reader" Receiving] merge(2)
  have "mset (concat (map (held fs reader) ((workers s)[i := Receiving]))) + mset fileTodos
        = mset (concat (map (held fs reader) (workers s)))" by simp
  then show ?case by (simp add: account_def ac_simps)
next
  case (leave i s)
  from mset_concat_update [OF leave(1), of "held fs reader" Exited] leave(2)
  have "mset (concat (map (held fs reader) ((workers s)[i := Exited])))
        = mset (concat (map (held fs reader) (workers s)))" by simp
  then show ?case by (simp add: account_def)
qed

lemma steps_account:
  "(step cap fs reader)\<^sup>*\<^sup>* s s' \<Longrightarrow> account fs reader s' = account fs reader s"
  by (induction rule: rtranclp_induct) (auto dest: step_account)

lemma step_remaining: "step cap fs reader s s' \<Longrightarrow> remaining s' < remaining s"
proof (induction rule: step.induct)
  case (send s job jobs)
  then show ?case by (simp add: remaining_def)
next
  case (close s)
  then show ?case by (simp add: remaining_def)
next
  case (receive i s job q)
  from sum_weight_update [OF receive(1), of "Scanning job"] receive(2,3)
  show ?case by (simp add: remaining_def)
next
  case (scan i s job fileTodos err)
  from sum_weight_update [OF scan(1), of "Holding (map (\<lambda>t. t\<lparr>File := rel job\<rparr>) fileTodos)"] scan(2)
  show ?case by (simp add: remaining_def)
next
  case (skip i s job fileTodos err)
  from sum_weight_update [OF skip(1), of Receiving] skip(2)
  show ?case by (simp add: remaining_def)
next
  case (merge i s fileTodos)
  from sum_weight_update [OF merge(1), of Receiving] merge(2)
  show ?case by (simp add: remaining_def)
next
  case (leave i s)
  from sum_weight_update [OF leave(1), of Exited] leave(2)
  show ?case by (simp add: remaining_def)
qed

lemma set_update_cases:
  "x \<in> set (ws[i := w]) \<Longrightarrow> x = w \<or> x \<in> set ws"
  by (metis in_set_conv_nth length_list_update nth_list_update_eq nth_list_update_neq)

lemma step_orderly: "step cap fs reader s s' \<Longrightarrow> orderly n s \<Longrightarrow> orderly n s'"
proof (induction rule: step.induct)
  case (send s job jobs)
  then show ?case by (auto simp: orderly_def split: if_splits)
next
  case (close s)
  then show ?case by (auto simp: orderly_def split: if_splits)
next
  case (receive i s job q)
  then show ?case by (auto simp: orderly_def split: if_splits dest!: set_update_cases)
next
  case (scan i s job fileTodos err)
  then show ?case by (auto simp: orderly_def split: if_splits dest!: set_update_cases)
next
  case (skip i s job fileTodos err)
  then show ?case by (auto simp: orderly_def split: if_splits dest!: set_update_cases)
next
  case (merge i s fileTodos)
  then show ?case by (auto simp: orderly_def split: if_splits dest!: set_update_cases)
next
  case (leave i s)
  then show ?case by (auto simp: orderly_def split: if_splits dest!: set_update_cases)
qed

lemma initial_orderly: "orderly n (initial n jobs)"
  by (simp add: orderly_def initial_def)

lemma steps_orderly: "(step cap fs reader)\<^sup>*\<^sup>* s s' \<Longrightarrow> orderly n s \<Longrightarrow> orderly n s'"
  by (induction rule: rtranclp_induct) (auto dest: step_orderly)

lemma finished_no_step: "finished s \<Longrightarrow> \<not> step cap fs reader s s'"
proof
  assume f: "finished s" and st: "step cap fs reader s s'"
  from st f show False
  proof (cases rule: step.cases)
    case (send job jobs)
    with f show ?thesis by (simp add: finished_def)
  next
    case close
    with f show ?thesis by (simp add: finished_def)
  next
    case (receive i job q)
    with f have "workers s ! i = Exited" by (simp add: finished_def list_all_length)
    with receive show ?thesis by simp
  next
    case (scan i job fileTodos err)
    with f have "workers s ! i = Exited" by (simp add: finished_def list_all_length)
    with scan show ?thesis by simp
  next
    case (skip i job fileTodos err)
    with f have "workers s ! i = Exited" by (simp add: finished_def list_all_length)
    with skip show ?thesis by simp
  next
    case (merge i fileTodos)
    with f have "workers s ! i = Exited" by (simp add: finished_def list_all_length)
    with merge show ?thesis by simp
  next
    case (leave i)
    with f have "workers s ! i = Exited" by (simp add: finished_def list_all_length)
    with leave show ?thesis by simp
  qed
qed

lemma progress:
  assumes o: "orderly n s" and n: "0 < n" and c: "0 < cap" and nf: "\<not> finished s"
  shows "\<exists>s'. step cap fs reader s s'"
proof (cases "\<exists>i < length (workers s). \<exists>b. workers s ! i = Holding b")
  case True
  then obtain i b where "i < length (workers s)" "workers s ! i = Holding b" by blast
  then show ?thesis by (blast intro: step.merge)
next
  case noHolding: False
  show ?thesis
  proof (cases "\<exists>i < length (workers s). \<exists>job. workers s ! i = Scanning job")
  case True
  then obtain i job where i: "i < length (workers s)" "workers s ! i = Scanning job" by blast
  obtain fileTodos err where
    sc: "scanFileWithReader (openPath job) (readerOpen fs reader) = (fileTodos, err)"
    by (cases "scanFileWithReader (openPath job) (readerOpen fs reader)") auto
  show ?thesis
  proof (cases "err = None \<and> 0 < length fileTodos")
    case True
    from step.scan [OF i sc True] show ?thesis by blast
  next
    case False
    from step.skip [OF i sc False] show ?thesis by blast
  qed
  next
  case noScanning: False
  show ?thesis
  proof (cases "\<exists>i < length (workers s). workers s ! i = Receiving")
    case True
    then obtain i where i: "i < length (workers s)" "workers s ! i = Receiving" by blast
    show ?thesis
    proof (cases "buffer s")
      case (Cons j q)
      with i show ?thesis by (blast intro: step.receive)
    next
      case Nil
      show ?thesis
      proof (cases "pending s")
        case (Cons j js)
        with Nil c have "length (buffer s) < cap" by simp
        with Cons show ?thesis by (blast intro: step.send)
      next
        case pNil: Nil
        show ?thesis
        proof (cases "closed s")
          case True
          with i Nil show ?thesis by (blast intro: step.leave)
        next
          case False
          with pNil show ?thesis by (blast intro: step.close)
        qed
      qed
    qed
  next
    case noReceiving: False
    have all: "\<forall>i < length (workers s). workers s ! i = Exited"
    proof (intro allI impI)
      fix i assume "i < length (workers s)"
      with noHolding noScanning noReceiving show "workers s ! i = Exited"
        by (cases "workers s ! i") auto
    qed
    from o n have "0 < length (workers s)" by (simp add: orderly_def)
    with all have "Exited \<in> set (workers s)" by (metis nth_mem)
    with o have cl: "closed s" "buffer s = []" "pending s = []"
      by (auto simp: orderly_def split: if_splits)
    from all have "list_all (\<lambda>w. w = Exited) (workers s)" by (simp add: list_all_length)
    with cl nf show ?thesis by (simp add: finished_def)
  qed
  qed
qed

lemma finished_account:
  assumes "finished s" "orderly n s" "0 < n"
  shows "account fs reader s = mset (merged s)"
proof -
  from assms(1) have all: "list_all (\<lambda>w. w = Exited) (workers s)" and p: "pending s = []"
    by (auto simp: finished_def)
  from assms(2,3) have "workers s \<noteq> []" by (auto simp: orderly_def)
  with all have "Exited \<in> set (workers s)"
    by (cases "workers s") auto
  with assms(2) have b: "buffer s = []" by (auto simp: orderly_def split: if_splits)
  from all have "concat (map (held fs reader) (workers s)) = []"
    by (induction "workers s") (auto simp: list_all_iff)
  with p b show ?thesis by (simp add: account_def)
qed

lemma initial_account:
  "account fs reader (initial n jobs) = mset (concat (map (batchOf fs reader) jobs))"
  by (simp add: account_def initial_def)

lemma worker_append: "worker fs reader todos job = todos @ batchOf fs reader job"
  by (auto simp: worker_def batchOf_def split: prod.splits)

lemma foldl_worker:
  "foldl (worker fs reader) acc jobs = acc @ concat (map (batchOf fs reader) jobs)"
proof (induction jobs arbitrary: acc)
  case Nil
  then show ?case by simp
next
  case (Cons j jobs)
  show ?case by (simp add: Cons.IH worker_append [of fs reader acc j])
qed

lemma scan_batches:
  "fst (ScanDirWithReader fs rt ignoreDirs reader)
   = concat (map (batchOf fs reader) (scanJobs fs rt ignoreDirs reader))"
  by (simp add: ScanDirWithReader_def scanWith_def scanJobs_def Let_def foldl_worker
           split: prod.splits)

lemma lineTodo_None: "(lineTodo path n line = None) = (FindStringSubmatch line = None)"
  by (auto simp: lineTodo_def split: option.splits)

lemma length_records:
  "length (List.map_filter (\<lambda>(i, line). lineTodo path (int i + 1) line) (enumerate n lines))
   = matchingLines lines"
proof (induction lines arbitrary: n)
  case Nil
  then show ?case by (simp add: matchingLines_def List.map_filter_simps)
next
  case (Cons line lines)
  show ?case
  proof (cases "FindStringSubmatch line")
    case None
    with Cons.IH [of "Suc n"] show ?thesis
      by (simp add: matchingLines_def List.map_filter_simps lineTodo_def)
  next
    case (Some m)
    with Cons.IH [of "Suc n"] show ?thesis
      by (cases m) (simp add: matchingLines_def List.map_filter_simps lineTodo_def)
  qed
qed

lemma length_fileRecords: "length (fileRecords path lines) = matchingLines lines"
  by (simp add: fileRecords_def length_records)

lemma batchOf_cases:
  "batchOf fs reader job =
    (case readerOpen fs reader (openPath job) of
       Inl err \<Rightarrow> []
     | Inr (lines, Some err) \<Rightarrow> []
     | Inr (lines, None) \<Rightarrow> map (\<lambda>t. t\<lparr>File := rel job\<rparr>) (fileRecords (openPath job) lines))"
  by (auto simp: batchOf_def worker_def scanFileWithReader_def scanLoop_fileRecords
           split: sum.splits prod.splits option.splits)

lemma length_batchOf:
  "length (batchOf fs reader job) =
    (case readerOpen fs reader (openPath job) of
       Inl err \<Rightarrow> 0
     | Inr (lines, Some err) \<Rightarrow> 0
     | Inr (lines, None) \<Rightarrow> matchingLines lines)"
  by (simp add: batchOf_cases length_fileRecords split: sum.splits prod.splits option.splits)

lemma length_batches:
  "length (concat (map (batchOf fs reader) jobs)) = readableMatches fs reader jobs"
  by (induction jobs) (simp_all add: readableMatches_def length_batchOf)

text \<open>
  Claim C7, amended.  Take any number \<open>n \<ge> 1\<close> of workers (and any capacity \<open>cap \<ge> 1\<close>
  of the queue) and any state \<open>s\<close> that the goroutines of a scan can reach.  If the scan
  has returned in \<open>s\<close>, it returns exactly the records of the non-ignored files that
  were opened and scanned without error, one for each of their matching lines (a file
  whose open or scan failed contributes none), in some order, and no step follows:
  nothing is produced after the return.  If it has not returned, some goroutine can
  take a step; a full queue only makes the producer wait, no job is dropped, the queue
  is closed only when the walk has sent every job, and a worker leaves only when the
  queue is closed and drained.  Every step lowers \<open>remaining\<close>, so every schedule reaches
  the return.
\<close>

theorem every_schedule_returns_the_readable_records:
  assumes "0 < n" and "0 < cap"
    and "(step cap fs reader)\<^sup>*\<^sup>* (initial n (scanJobs fs rt ignoreDirs reader)) s"
  shows "(finished s \<longrightarrow>
            mset (merged s) = mset (fst (ScanDirWithReader fs rt ignoreDirs reader))
            \<and> length (merged s) = readableMatches fs reader (scanJobs fs rt ignoreDirs reader)
            \<and> (\<forall>s'. \<not> step cap fs reader s s'))
       \<and> (\<not> finished s \<longrightarrow> (\<exists>s'. step cap fs reader s s'))
       \<and> (\<forall>s'. step cap fs reader s s' \<longrightarrow> remaining s' < remaining s)"
proof -
  define jobs where "jobs = scanJobs fs rt ignoreDirs reader"
  define batch where "batch = batchOf fs reader"
  from assms(3) have reach: "(step cap fs reader)\<^sup>*\<^sup>* (initial n jobs) s"
    by (simp add: jobs_def)
  have o: "orderly n s" using reach initial_orderly by (rule steps_orderly)
  have acc: "account fs reader s = mset (concat (map batch jobs))"
    using steps_account [OF reach] by (simp add: initial_account batch_def)
  have fin: "finished s \<Longrightarrow> mset (merged s) = mset (concat (map batch jobs))"
    using finished_account [OF _ o assms(1), of fs reader] acc by simp
  have a: "finished s \<Longrightarrow> mset (merged s) = mset (fst (ScanDirWithReader fs rt ignoreDirs reader))"
    using fin by (simp add: scan_batches jobs_def batch_def)
  have b: "finished s \<Longrightarrow> length (merged s) = readableMatches fs reader jobs"
  proof -
    assume "finished s"
    then have "size (mset (merged s)) = size (mset (concat (map batch jobs)))"
      using fin by simp
    then show ?thesis by (simp add: batch_def length_batches)
  qed
  have c: "finished s \<Longrightarrow> \<forall>s'. \<not> step cap fs reader s s'"
    using finished_no_step by blast
  have d: "\<not> finished s \<Longrightarrow> \<exists>s'. step cap fs reader s s'"
    using progress [OF o assms(1) assms(2)] by blast
  have e: "\<forall>s'. step cap fs reader s s' \<longrightarrow> remaining s' < remaining s"
    using step_remaining by blast
  from a b c d e show ?thesis unfolding jobs_def batch_def by blast
qed

theorem every_schedule_returns_the_readable_records_witness:
  "(0::nat) < 2 \<and> (0::nat) < 64
   \<and> (step 64 fsBroken OSFileReader)\<^sup>*\<^sup>*
        (initial 2 (scanJobs fsBroken [''work''] [] OSFileReader))
        (initial 2 (scanJobs fsBroken [''work''] [] OSFileReader))
   \<and> \<not> finished (initial 2 (scanJobs fsBroken [''work''] [] OSFileReader))
   \<and> (\<exists>s'. step 64 fsBroken OSFileReader
              (initial 2 (scanJobs fsBroken [''work''] [] OSFileReader)) s')"
proof -
  have r: "(step 64 fsBroken OSFileReader)\<^sup>*\<^sup>*
        (initial 2 (scanJobs fsBroken [''work''] [] OSFileReader))
        (initial 2 (scanJobs fsBroken [''work''] [] OSFileReader))" by simp
  have nf: "\<not> finished (initial 2 (scanJobs fsBroken [''work''] [] OSFileReader))"
    by (simp add: finished_def initial_def)
  from every_schedule_returns_the_readable_records [OF _ _ r] nf r show ?thesis by simp
qed

text \<open>
  Claim C7 says that a scan returns exactly as many records as the non-ignored files
  have matching lines.  That fails for a file that cannot be read to its end: the only
  file under \<open>/work\<close> in \<open>fsBroken\<close> is not ignored and has one matching line, its scan
  ends with an error, and the scan of \<open>/work\<close> returns no record.
\<close>

theorem unreadable_file_counterexample:
  "scanJobs fsBroken [''work''] [] OSFileReader = [\<lparr>rel = ''a.go'', openPath = ''/work/a.go''\<rparr>]
   \<and> readerOpen fsBroken OSFileReader ''/work/a.go'' = Inr ([''// TODO: first''], Some ErrIO)
   \<and> matchingLines [''// TODO: first''] = 1
   \<and> ScanDir fsBroken [''work''] [] = ([], None)"
  by code_simp

end
